theory Spec2Isabelle
  imports Main
begin

section \<open>ACC hotlap merger: a shallow embedding of merger.py\<close>

text \<open>
  The program reads a ZIP archive of session result files, reduces every session to the
  best valid lap per (playerId, carModel), merges the sessions, ranks the result and
  writes a CSV table. The JSON documents are modelled as records of the fields the code
  reads; Python dictionaries as association lists in insertion order (iteration order,
  the pick of \<open>min\<close> among ties and the stable \<open>sorted\<close> depend on it); every \<open>raise\<close>
  as a value of the type \<open>error\<close>.
\<close>

subsection \<open>Errors\<close>

datatype error =
    UnboundLocalError \<comment> \<open>a local variable read before its first assignment\<close>
  | ValueError \<comment> \<open>\<open>min()\<close> of an empty sequence\<close>
  | KeyError \<comment> \<open>subscript of a dictionary with a missing key\<close>
  | IndexError \<comment> \<open>subscript of a list out of range\<close>
  | ZeroDivisionError \<comment> \<open>division by zero\<close>
  | OverflowError \<comment> \<open>the quotient of two integers is too large for a float\<close>
  | DecodeError \<comment> \<open>\<open>json.load\<close> fails, or the document has not the shape of a session\<close>

subsection \<open>Python dictionaries, in insertion order\<close>

type_synonym ('k, 'v) dict = "('k \<times> 'v) list"

definition dict_get :: "('k, 'v) dict \<Rightarrow> 'k \<Rightarrow> 'v option" where
  "dict_get d k = map_of d k"

text \<open>\<open>d[k] = v\<close>: a present key keeps its place, a new key goes to the end.\<close>

fun dict_set :: "('k, 'v) dict \<Rightarrow> 'k \<Rightarrow> 'v \<Rightarrow> ('k, 'v) dict" where
  "dict_set [] k v = [(k, v)]"
| "dict_set ((k', v') # d) k v =
     (if k' = k then (k', v) # d else (k', v') # dict_set d k v)"

text \<open>A dictionary comprehension stores its items one after the other.\<close>

definition dict_of_items :: "('k \<times> 'v) list \<Rightarrow> ('k, 'v) dict" where
  "dict_of_items items = fold (\<lambda>(k, v) d. dict_set d k v) items []"

subsection \<open>The session document\<close>

record driver =
  playerId :: string
  firstName :: string
  lastName :: string

record car =
  carId :: int
  carModel :: int
  drivers :: "driver list"

record leaderboard_line =
  car :: car

record lap =
  carId :: int
  driverIndex :: int
  laptime :: int
  isValidForBest :: bool
  splits :: "int list"

record session_result =
  leaderBoardLines :: "leaderboard_line list"

record session =
  laps :: "lap list"
  sessionResult :: session_result

text \<open>The value stored per key: \<open>{"laptime": .., "splits": .., "name": ..}\<close>.\<close>

record lap_info =
  laptime :: int
  splits :: "int list"
  name :: "string \<times> string"

type_synonym best_key = "string \<times> int"

subsection \<open>\<open>ms_to_time_format\<close>\<close>

definition digit_char :: "nat \<Rightarrow> char" where
  "digit_char n = ''0123456789'' ! n"

fun str_nat :: "nat \<Rightarrow> string" where
  "str_nat n = (if n < 10 then [digit_char n] else str_nat (n div 10) @ [digit_char (n mod 10)])"

declare str_nat.simps [simp del]

definition zfill :: "nat \<Rightarrow> string \<Rightarrow> string" where
  "zfill w s = replicate (w - length s) (CHR ''0'') @ s"

text \<open>
  The format specification \<open>{n:0w}\<close> of an integer: decimal digits, filled with zeros on
  the left up to width \<open>w\<close>, the sign (counted in the width) before the zeros.
\<close>

definition format_zero :: "nat \<Rightarrow> int \<Rightarrow> string" where
  "format_zero w n =
     (if n < 0 then CHR ''-'' # zfill (w - 1) (str_nat (nat (- n)))
      else zfill w (str_nat (nat n)))"

definition ms_to_time_format :: "int \<Rightarrow> string" where
  "ms_to_time_format milliseconds =
     (let minutes = milliseconds div 60000;
          seconds = (milliseconds mod 60000) div 1000;
          milliseconds' = milliseconds mod 1000
      in format_zero 2 minutes @ '':'' @ format_zero 2 seconds @ ''.'' @ format_zero 3 milliseconds')"

subsection \<open>\<open>process_session_data\<close>\<close>

text \<open>
  The items of the comprehension that builds \<open>driver_map\<close>, in the order it yields them:
  every leaderboard line, every driver of its car with the driver's index.
\<close>

definition driver_map_items :: "leaderboard_line list \<Rightarrow> ((int \<times> int) \<times> best_key) list" where
  "driver_map_items leaderboard =
     concat (map (\<lambda>entry.
       map (\<lambda>(idx, driver). ((car.carId (car entry), int idx), (playerId driver, carModel (car entry))))
         (enumerate 0 (drivers (car entry)))) leaderboard)"

definition player_names_items :: "leaderboard_line list \<Rightarrow> (string \<times> (string \<times> string)) list" where
  "player_names_items leaderboard =
     concat (map (\<lambda>entry.
       map (\<lambda>driver. (playerId driver, (firstName driver, lastName driver)))
         (drivers (car entry))) leaderboard)"

definition driver_map :: "leaderboard_line list \<Rightarrow> ((int \<times> int), best_key) dict" where
  "driver_map leaderboard = dict_of_items (driver_map_items leaderboard)"

definition player_names :: "leaderboard_line list \<Rightarrow> (string, string \<times> string) dict" where
  "player_names leaderboard = dict_of_items (player_names_items leaderboard)"

text \<open>
  One round of the loop over the laps. \<open>driver_map.get\<close> gives \<open>None\<close> for a missing
  pair; a found key is a pair, which is never falsy, so \<open>not key\<close> holds for \<open>None\<close>
  only. \<open>player_names[key[0]]\<close> raises \<open>KeyError\<close> for a missing player.
\<close>

definition lap_step ::
  "((int \<times> int), best_key) dict \<Rightarrow> (string, string \<times> string) dict \<Rightarrow> lap \<Rightarrow>
   (best_key, lap_info) dict \<Rightarrow> error + (best_key, lap_info) dict" where
  "lap_step dm pn l best_laps =
     (case dict_get dm (lap.carId l, driverIndex l) of
        None \<Rightarrow> Inr best_laps
      | Some key \<Rightarrow>
          if isValidForBest l \<and>
             (case dict_get best_laps key of
                None \<Rightarrow> True
              | Some b \<Rightarrow> lap.laptime l < lap_info.laptime b)
          then (case dict_get pn (fst key) of
                  None \<Rightarrow> Inl KeyError
                | Some nm \<Rightarrow>
                    Inr (dict_set best_laps key
                          \<lparr>lap_info.laptime = lap.laptime l, lap_info.splits = lap.splits l, name = nm\<rparr>))
          else Inr best_laps)"

fun lap_loop ::
  "((int \<times> int), best_key) dict \<Rightarrow> (string, string \<times> string) dict \<Rightarrow> lap list \<Rightarrow>
   (best_key, lap_info) dict \<Rightarrow> error + (best_key, lap_info) dict" where
  "lap_loop dm pn [] best_laps = Inr best_laps"
| "lap_loop dm pn (l # ls) best_laps =
     (case lap_step dm pn l best_laps of
        Inl e \<Rightarrow> Inl e
      | Inr best_laps' \<Rightarrow> lap_loop dm pn ls best_laps')"

definition process_session_data :: "session \<Rightarrow> error + (best_key, lap_info) dict" where
  "process_session_data data =
     (let leaderboard = leaderBoardLines (sessionResult data)
      in lap_loop (driver_map leaderboard) (player_names leaderboard) (laps data) [])"

subsection \<open>\<open>aggregate_results\<close>\<close>

text \<open>
  A member of the archive: its name and what \<open>json.load\<close> makes of its bytes (\<open>None\<close>
  when they are no session document).
\<close>

record member =
  filename :: string
  content :: "session option"

definition endswith :: "string \<Rightarrow> string \<Rightarrow> bool" where
  "endswith s suffix = (length suffix \<le> length s \<and> drop (length s - length suffix) s = suffix)"

definition json_load :: "session option \<Rightarrow> error + session" where
  "json_load c = (case c of None \<Rightarrow> Inl DecodeError | Some data \<Rightarrow> Inr data)"

text \<open>The inner loop: \<open>for key, lap_info in session_best_laps.items()\<close>.\<close>

definition merge_item ::
  "best_key \<times> lap_info \<Rightarrow> (best_key, lap_info) dict \<Rightarrow> (best_key, lap_info) dict" where
  "merge_item kv aggregated_results =
     (case kv of (key, info) \<Rightarrow>
        if (case dict_get aggregated_results key of
              None \<Rightarrow> True
            | Some a \<Rightarrow> lap_info.laptime info < lap_info.laptime a)
        then dict_set aggregated_results key info
        else aggregated_results)"

definition merge_session ::
  "(best_key, lap_info) dict \<Rightarrow> (best_key, lap_info) dict \<Rightarrow> (best_key, lap_info) dict" where
  "merge_session session_best_laps aggregated_results = fold merge_item session_best_laps aggregated_results"

text \<open>
  The loop over \<open>z.namelist()\<close>. Its state is the local variable \<open>session_data\<close>
  (\<open>None\<close> while it is unbound) and \<open>aggregated_results\<close>. Only the \<open>with\<close> block that
  loads the document is under the test of the suffix; the call of
  \<open>process_session_data\<close> and the merge are at the level of the \<open>for\<close> body and run for
  every member.
\<close>

fun member_loop ::
  "member list \<Rightarrow> session option \<Rightarrow> (best_key, lap_info) dict \<Rightarrow> error + (best_key, lap_info) dict" where
  "member_loop [] session_data aggregated_results = Inr aggregated_results"
| "member_loop (m # ms) session_data aggregated_results =
     (case (if endswith (filename m) ''.json''
            then (case json_load (content m) of Inl e \<Rightarrow> Inl e | Inr data \<Rightarrow> Inr (Some data))
            else Inr session_data) of
        Inl e \<Rightarrow> Inl e
      | Inr session_data' \<Rightarrow>
          (case session_data' of
             None \<Rightarrow> Inl UnboundLocalError
           | Some data \<Rightarrow>
               (case process_session_data data of
                  Inl e \<Rightarrow> Inl e
                | Inr session_best_laps \<Rightarrow>
                    member_loop ms session_data' (merge_session session_best_laps aggregated_results))))"

text \<open>\<open>min(xs, key=f)\<close>: the first of the smallest; \<open>ValueError\<close> when there is none.\<close>

fun py_min :: "('a \<Rightarrow> int) \<Rightarrow> 'a list \<Rightarrow> error + 'a" where
  "py_min f [] = Inl ValueError"
| "py_min f (x # xs) = Inr (fold (\<lambda>y m. if f y < f m then y else m) xs x)"

text \<open>An entry of the returned list.\<close>

record ranked_entry =
  player_id :: string
  name :: "string \<times> string"
  car_model :: int
  laptime :: int
  splits :: "int list"
  gap :: int

definition ranked ::
  "int \<Rightarrow> best_key \<times> lap_info \<Rightarrow> ranked_entry" where
  "ranked best_lap kv =
     (case kv of ((pid, cm), data) \<Rightarrow>
        \<lparr>player_id = pid, ranked_entry.name = lap_info.name data, car_model = cm,
         ranked_entry.laptime = lap_info.laptime data, ranked_entry.splits = lap_info.splits data,
         gap = lap_info.laptime data - best_lap\<rparr>)"

text \<open>\<open>sorted\<close> is stable, as the insertion sort \<^const>\<open>sort_key\<close> is.\<close>

definition item_laptime :: "best_key \<times> lap_info \<Rightarrow> int" where
  "item_laptime x = lap_info.laptime (snd x)"

definition finalize :: "(best_key, lap_info) dict \<Rightarrow> error + ranked_entry list" where
  "finalize aggregated_results =
     (case py_min item_laptime aggregated_results of
        Inl e \<Rightarrow> Inl e
      | Inr m \<Rightarrow>
          (let best_lap = lap_info.laptime (snd m)
           in Inr (sort_key ranked_entry.laptime (map (ranked best_lap) aggregated_results))))"

definition aggregate_results :: "member list \<Rightarrow> error + ranked_entry list" where
  "aggregate_results z =
     (case member_loop z None [] of
        Inl e \<Rightarrow> Inl e
      | Inr aggregated_results \<Rightarrow> finalize aggregated_results)"

subsection \<open>\<open>export_hotlaps\<close> and the script\<close>

text \<open>
  \<open>f'{gap / 1000:.3f}'\<close> divides two integers into a float and formats the float.
  A float is an IEEE double: a sign, and a magnitude \<open>m * 2 ^ e\<close> with \<open>m < 2 ^ 53\<close>
  (\<open>m = 2 ^ 53\<close> stands for the next binade) and \<open>- 1074 \<le> e \<le> 971\<close>.
\<close>

datatype double = Double (negative: bool) (mantissa: nat) (exponent: int)

text \<open>The integer nearest to \<open>num / den\<close>, the even one of two that are equally near.\<close>

definition round_half_even :: "nat \<Rightarrow> nat \<Rightarrow> nat" where
  "round_half_even num den =
     (let q = num div den; r = num mod den
      in if 2 * r < den then q
         else if den < 2 * r then q + 1
         else if even q then q else q + 1)"

text \<open>\<open>int.bit_length\<close>: the number of binary digits.\<close>

fun bit_length :: "nat \<Rightarrow> nat" where
  "bit_length n = (if n = 0 then 0 else Suc (bit_length (n div 2)))"

declare bit_length.simps [simp del]

text \<open>\<open>x / y\<close> scaled by \<open>2 ^ (- s)\<close>, as a fraction of naturals.\<close>

definition scaled :: "nat \<Rightarrow> nat \<Rightarrow> int \<Rightarrow> nat \<times> nat" where
  "scaled x y s = (if 0 \<le> s then (x, y * 2 ^ nat s) else (x * 2 ^ nat (- s), y))"

text \<open>
  The binary exponent \<open>t\<close> of a quotient of positive numbers, \<open>2 ^ t \<le> x / y < 2 ^ (t + 1)\<close>:
  the bit lengths leave two values open.
\<close>

definition binary_exponent :: "nat \<Rightarrow> nat \<Rightarrow> int" where
  "binary_exponent x y =
     (let t0 = int (bit_length x) - int (bit_length y)
      in if snd (scaled x y t0) \<le> fst (scaled x y t0) then t0 else t0 - 1)"

text \<open>
  The double nearest to \<open>x / y\<close> (ties to the even mantissa): the mantissa is the
  quotient scaled by \<open>2 ^ (- e)\<close> and rounded, with \<open>e\<close> 52 below the binary exponent
  and not below the exponent of the subnormal numbers; \<open>OverflowError\<close> when the result
  is beyond the largest double.
\<close>

definition round_to_double :: "bool \<Rightarrow> nat \<Rightarrow> nat \<Rightarrow> error + double" where
  "round_to_double neg x y =
     (let e = max (binary_exponent x y - 52) (- 1074);
          m = round_half_even (fst (scaled x y e)) (snd (scaled x y e))
      in if 971 < e \<or> (e = 971 \<and> m = 2 ^ 53) then Inl OverflowError
         else Inr (Double neg m e))"

text \<open>\<open>a / b\<close> for two integers: \<open>ZeroDivisionError\<close> for \<open>b = 0\<close>, a zero for \<open>a = 0\<close>.\<close>

definition truediv :: "int \<Rightarrow> int \<Rightarrow> error + double" where
  "truediv a b =
     (if b = 0 then Inl ZeroDivisionError
      else if a = 0 then Inr (Double ((a < 0) \<noteq> (b < 0)) 0 0)
      else round_to_double ((a < 0) \<noteq> (b < 0)) (nat \<bar>a\<bar>) (nat \<bar>b\<bar>))"

text \<open>
  The format \<open>.3f\<close>: the decimal number with three digits after the point that is
  nearest to the double (ties to the even last digit), with a minus sign for a negative
  double. \<open>n\<close> is that number in thousandths.
\<close>

definition format_3f :: "double \<Rightarrow> string" where
  "format_3f d =
     (let n = (if 0 \<le> exponent d then mantissa d * 1000 * 2 ^ nat (exponent d)
               else round_half_even (mantissa d * 1000) (2 ^ nat (- exponent d)))
      in (if negative d then ''-'' else []) @
         str_nat (n div 1000) @ ''.'' @ zfill 3 (str_nat (n mod 1000)))"

definition format_gap :: "int \<Rightarrow> error + string" where
  "format_gap g = (case truediv g 1000 of Inl e \<Rightarrow> Inl e | Inr d \<Rightarrow> Inr (format_3f d))"

definition py_index :: "'a list \<Rightarrow> nat \<Rightarrow> error + 'a" where
  "py_index xs i = (if i < length xs then Inr (xs ! i) else Inl IndexError)"

text \<open>
  The table \<open>car_models\<close> comes from the module \<open>cars\<close>; it is a parameter here, a
  partial map from the model number to the display name.
\<close>

definition export_row :: "(int \<rightharpoonup> string) \<Rightarrow> ranked_entry \<Rightarrow> error + string list" where
  "export_row car_models entry =
     (case car_models (car_model entry) of
        None \<Rightarrow> Inl KeyError
      | Some car_name \<Rightarrow>
          (case py_index (ranked_entry.splits entry) 0 of
             Inl e \<Rightarrow> Inl e
           | Inr s1 \<Rightarrow>
               (case py_index (ranked_entry.splits entry) 1 of
                  Inl e \<Rightarrow> Inl e
                | Inr s2 \<Rightarrow>
                    (case py_index (ranked_entry.splits entry) 2 of
                       Inl e \<Rightarrow> Inl e
                     | Inr s3 \<Rightarrow>
                         (case format_gap (gap entry) of
                            Inl e \<Rightarrow> Inl e
                          | Inr gap_text \<Rightarrow>
                              Inr [fst (ranked_entry.name entry) @ '' '' @ snd (ranked_entry.name entry),
                                   car_name,
                                   ms_to_time_format (ranked_entry.laptime entry),
                                   ms_to_time_format s1,
                                   ms_to_time_format s2,
                                   ms_to_time_format s3,
                                   gap_text])))))"

fun export_rows :: "(int \<rightharpoonup> string) \<Rightarrow> ranked_entry list \<Rightarrow> error + string list list" where
  "export_rows car_models [] = Inr []"
| "export_rows car_models (entry # entries) =
     (case export_row car_models entry of
        Inl e \<Rightarrow> Inl e
      | Inr row \<Rightarrow>
          (case export_rows car_models entries of
             Inl e \<Rightarrow> Inl e
           | Inr rows \<Rightarrow> Inr (row # rows)))"

definition fieldnames :: "string list" where
  "fieldnames = [''Name'', ''Car'', ''Lap Time'', ''S1'', ''S2'', ''S3'', ''Gap'']"

text \<open>
  What a run leaves behind: the error it died of, if any, and the rows of the output
  file, if the file was opened. \<open>export_hotlaps\<close> opens the file for writing before it
  builds the rows, so an error in a row leaves an empty file.
\<close>

record outcome =
  raised :: "error option"
  output_file :: "string list list option"

definition export_hotlaps :: "(int \<rightharpoonup> string) \<Rightarrow> ranked_entry list \<Rightarrow> outcome" where
  "export_hotlaps car_models data =
     (case export_rows car_models data of
        Inl e \<Rightarrow> \<lparr>raised = Some e, output_file = Some []\<rparr>
      | Inr out_data \<Rightarrow> \<lparr>raised = None, output_file = Some (fieldnames # out_data)\<rparr>)"

text \<open>The script: \<open>aggregate_results\<close>, then \<open>export_hotlaps\<close> on what it returned.\<close>

definition main :: "(int \<rightharpoonup> string) \<Rightarrow> member list \<Rightarrow> outcome" where
  "main car_models z =
     (case aggregate_results z of
        Inl e \<Rightarrow> \<lparr>raised = Some e, output_file = None\<rparr>
      | Inr aggregated_data \<Rightarrow> export_hotlaps car_models aggregated_data)"

subsection \<open>Notions of the statements\<close>

text \<open>The laps of a session that count for a key: valid, and resolved to that key.\<close>

definition counting_laps :: "session \<Rightarrow> best_key \<Rightarrow> lap list" where
  "counting_laps data key =
     filter (\<lambda>l. isValidForBest l \<and>
                 dict_get (driver_map (leaderBoardLines (sessionResult data)))
                   (lap.carId l, driverIndex l) = Some key)
       (laps data)"

definition is_json :: "member \<Rightarrow> bool" where
  "is_json m = endswith (filename m) ''.json''"

text \<open>Reading a string of decimal digits back as a number.\<close>

definition is_digit :: "char \<Rightarrow> bool" where
  "is_digit c = (c \<in> set ''0123456789'')"

definition digit_val :: "char \<Rightarrow> nat" where
  "digit_val c = length (takeWhile (\<lambda>d. d \<noteq> c) ''0123456789'')"

definition nat_of_digits :: "string \<Rightarrow> nat" where
  "nat_of_digits s = foldl (\<lambda>n c. 10 * n + digit_val c) 0 s"

subsection \<open>Sample data\<close>

text \<open>
  Two drivers in two cars. In session A, \<open>P1\<close> has a valid lap of 90000 ms, an invalid
  one of 80000 ms and a second valid one of 90000 ms with other splits; a lap of car 9,
  driver 3, is on no leaderboard line; \<open>P2\<close> has a valid lap of 90000 ms. In session B,
  \<open>P1\<close> has a valid lap of 85000 ms.
\<close>

definition ann :: driver where
  "ann = \<lparr>playerId = ''P1'', firstName = ''Ann'', lastName = ''Lee''\<rparr>"

definition bob :: driver where
  "bob = \<lparr>playerId = ''P2'', firstName = ''Bob'', lastName = ''Ray''\<rparr>"

definition board :: "leaderboard_line list" where
  "board = [\<lparr>car = \<lparr>car.carId = 1, carModel = 5, drivers = [ann]\<rparr>\<rparr>,
            \<lparr>car = \<lparr>car.carId = 2, carModel = 7, drivers = [bob]\<rparr>\<rparr>]"

definition lap_90 :: lap where
  "lap_90 = \<lparr>lap.carId = 1, driverIndex = 0, lap.laptime = 90000, isValidForBest = True,
            lap.splits = [30000, 30000, 30000]\<rparr>"

definition lap_80_invalid :: lap where
  "lap_80_invalid = \<lparr>lap.carId = 1, driverIndex = 0, lap.laptime = 80000, isValidForBest = False,
            lap.splits = [26000, 27000, 27000]\<rparr>"

definition lap_90_again :: lap where
  "lap_90_again = \<lparr>lap.carId = 1, driverIndex = 0, lap.laptime = 90000, isValidForBest = True,
            lap.splits = [29000, 30000, 31000]\<rparr>"

definition lap_unknown :: lap where
  "lap_unknown = \<lparr>lap.carId = 9, driverIndex = 3, lap.laptime = 70000, isValidForBest = True,
            lap.splits = [23000, 23000, 24000]\<rparr>"

definition lap_bob :: lap where
  "lap_bob = \<lparr>lap.carId = 2, driverIndex = 0, lap.laptime = 90000, isValidForBest = True,
            lap.splits = [31000, 29000, 30000]\<rparr>"

definition lap_85 :: lap where
  "lap_85 = \<lparr>lap.carId = 1, driverIndex = 0, lap.laptime = 85000, isValidForBest = True,
            lap.splits = [28000, 28000, 29000]\<rparr>"

definition session_A :: session where
  "session_A = \<lparr>laps = [lap_90, lap_80_invalid, lap_90_again, lap_unknown, lap_bob],
                sessionResult = \<lparr>leaderBoardLines = board\<rparr>\<rparr>"

definition session_B :: session where
  "session_B = \<lparr>laps = [lap_85], sessionResult = \<lparr>leaderBoardLines = board\<rparr>\<rparr>"

definition key_ann :: best_key where
  "key_ann = (''P1'', 5)"

definition key_bob :: best_key where
  "key_bob = (''P2'', 7)"

definition info_90 :: lap_info where
  "info_90 = \<lparr>lap_info.laptime = 90000, lap_info.splits = [30000, 30000, 30000],
             name = (''Ann'', ''Lee'')\<rparr>"

definition info_85 :: lap_info where
  "info_85 = \<lparr>lap_info.laptime = 85000, lap_info.splits = [28000, 28000, 29000],
             name = (''Ann'', ''Lee'')\<rparr>"

definition info_bob :: lap_info where
  "info_bob = \<lparr>lap_info.laptime = 90000, lap_info.splits = [31000, 29000, 30000],
             name = (''Bob'', ''Ray'')\<rparr>"

definition member_A :: member where
  "member_A = \<lparr>filename = ''a.json'', content = Some session_A\<rparr>"

definition member_B :: member where
  "member_B = \<lparr>filename = ''b.json'', content = Some session_B\<rparr>"

definition member_notes :: member where
  "member_notes = \<lparr>filename = ''notes.txt'', content = None\<rparr>"

text \<open>A leaderboard on which car 1 and player \<open>P1\<close> appear twice.\<close>

definition board_twice :: "leaderboard_line list" where
  "board_twice =
     [\<lparr>car = \<lparr>car.carId = 1, carModel = 5, drivers = [ann]\<rparr>\<rparr>,
      \<lparr>car = \<lparr>car.carId = 1, carModel = 8,
              drivers = [\<lparr>playerId = ''P1'', firstName = ''Anna'', lastName = ''Leigh''\<rparr>]\<rparr>\<rparr>]"

text \<open>A session in which no lap counts, and the entries the sample archives rank.\<close>

definition session_none :: session where
  "session_none = \<lparr>laps = [lap_80_invalid, lap_unknown], sessionResult = \<lparr>leaderBoardLines = board\<rparr>\<rparr>"

definition member_none :: member where
  "member_none = \<lparr>filename = ''none.json'', content = Some session_none\<rparr>"

definition ranked_ann :: "int \<Rightarrow> int list \<Rightarrow> int \<Rightarrow> ranked_entry" where
  "ranked_ann t s g =
     \<lparr>player_id = ''P1'', ranked_entry.name = (''Ann'', ''Lee''), car_model = 5,
      ranked_entry.laptime = t, ranked_entry.splits = s, gap = g\<rparr>"

definition ranked_bob :: "int \<Rightarrow> ranked_entry" where
  "ranked_bob g =
     \<lparr>player_id = ''P2'', ranked_entry.name = (''Bob'', ''Ray''), car_model = 7,
      ranked_entry.laptime = 90000, ranked_entry.splits = [31000, 29000, 30000], gap = g\<rparr>"

text \<open>A table of car models for the sample data.\<close>

definition sample_cars :: "int \<rightharpoonup> string" where
  "sample_cars = [5 \<mapsto> ''Car Five'', 7 \<mapsto> ''Car Seven'']"

text \<open>What one lap that counts for a key does to the record stored for the key.\<close>

definition keep_faster :: "(string \<times> string) \<Rightarrow> lap \<Rightarrow> lap_info option \<Rightarrow> lap_info option" where
  "keep_faster nm l stored =
     (case stored of
        None \<Rightarrow> Some \<lparr>lap_info.laptime = lap.laptime l, lap_info.splits = lap.splits l, name = nm\<rparr>
      | Some b \<Rightarrow>
          if lap.laptime l < lap_info.laptime b
          then Some \<lparr>lap_info.laptime = lap.laptime l, lap_info.splits = lap.splits l, name = nm\<rparr>
          else Some b)"

definition counts_for :: "((int \<times> int), best_key) dict \<Rightarrow> best_key \<Rightarrow> lap \<Rightarrow> bool" where
  "counts_for dm key l = (isValidForBest l \<and> dict_get dm (lap.carId l, driverIndex l) = Some key)"

text \<open>Every player of the first lookup has a name in the second.\<close>

definition names_cover ::
  "((int \<times> int), best_key) dict \<Rightarrow> (string, string \<times> string) dict \<Rightarrow> bool" where
  "names_cover dm pn = (\<forall>k key. dict_get dm k = Some key \<longrightarrow> dict_get pn (fst key) \<noteq> None)"

definition stored_time :: "(best_key, lap_info) dict \<Rightarrow> best_key \<Rightarrow> int set" where
  "stored_time best key = (case dict_get best key of None \<Rightarrow> {} | Some b \<Rightarrow> {lap_info.laptime b})"

definition lap_times ::
  "((int \<times> int), best_key) dict \<Rightarrow> best_key \<Rightarrow> lap list \<Rightarrow> int set" where
  "lap_times dm key ls =
     lap.laptime ` {l \<in> set ls. isValidForBest l \<and> dict_get dm (lap.carId l, driverIndex l) = Some key}"

section \<open>Properties\<close>

subsection \<open>Dictionaries\<close>

lemma dict_get_Nil [simp]: "dict_get [] k = None"
  by (simp add: dict_get_def)

lemma dict_get_dict_set: "dict_get (dict_set d k v) k' = (if k' = k then Some v else dict_get d k')"
  by (induction d) (auto simp: dict_get_def)

lemma keys_dict_set:
  "map fst (dict_set d k v) = (if k \<in> set (map fst d) then map fst d else map fst d @ [k])"
  by (induction d) force+

lemma distinct_dict_set: "distinct (map fst d) \<Longrightarrow> distinct (map fst (dict_set d k v))"
  by (simp add: keys_dict_set)

lemma dict_get_fold_set:
  "dict_get (fold (\<lambda>(k, v) d. dict_set d k v) items d0) k =
     (case map_of (rev items) k of None \<Rightarrow> dict_get d0 k | Some v \<Rightarrow> Some v)"
proof (induction items arbitrary: d0)
  case Nil
  then show ?case by simp
next
  case (Cons kv items)
  obtain k1 v1 where kv: "kv = (k1, v1)" by (cases kv)
  show ?case
    by (simp add: kv Cons.IH map_add_def dict_get_dict_set split: option.splits)
qed

lemma dict_get_dict_of_items: "dict_get (dict_of_items items) k = map_of (rev items) k"
  by (simp add: dict_of_items_def dict_get_fold_set split: option.splits)

lemma dict_of_items_last:
  assumes "items = pre @ (k, v) # post" and "k \<notin> fst ` set post"
  shows "dict_get (dict_of_items items) k = Some v"
proof -
  have "map_of (rev post) k = None"
    using assms(2) by (simp add: map_of_eq_None_iff)
  then show ?thesis
    by (simp add: dict_get_dict_of_items assms(1) map_add_def)
qed

subsection \<open>The two lookups of a session\<close>

text \<open>
  Claim C9. Both lookups are built by storing the items of the leaderboard traversal one
  after the other: of several items with the same (carId, driverIndex), the last one of
  the traversal is the one found in \<open>driver_map\<close>, and of several items with the same
  playerId, the last one is the one found in \<open>player_names\<close>.
\<close>

theorem lookups_last_wins:
  "(\<forall>pre k v post. driver_map_items lb = pre @ (k, v) # post \<and> k \<notin> fst ` set post
      \<longrightarrow> dict_get (driver_map lb) k = Some v) \<and>
   (\<forall>pre p nm post. player_names_items lb = pre @ (p, nm) # post \<and> p \<notin> fst ` set post
      \<longrightarrow> dict_get (player_names lb) p = Some nm)"
  by (auto simp: driver_map_def player_names_def dict_of_items_last)

theorem lookups_last_wins_witness:
  "driver_map_items board_twice = [((1, 0), (''P1'', 5))] @ ((1, 0), (''P1'', 8)) # [] \<and>
   (1 :: int, 0 :: int) \<notin> fst ` set ([] :: ((int \<times> int) \<times> best_key) list) \<and>
   dict_get (driver_map board_twice) (1, 0) = Some (''P1'', 8) \<and>
   player_names_items board_twice =
     [(''P1'', (''Ann'', ''Lee''))] @ (''P1'', (''Anna'', ''Leigh'')) # [] \<and>
   ''P1'' \<notin> fst ` set ([] :: (string \<times> (string \<times> string)) list) \<and>
   dict_get (player_names board_twice) ''P1'' = Some (''Anna'', ''Leigh'')"
proof -
  have d: "driver_map_items board_twice = [((1, 0), (''P1'', 5))] @ ((1, 0), (''P1'', 8)) # []"
    by (simp add: driver_map_items_def board_twice_def ann_def)
  have p: "player_names_items board_twice =
     [(''P1'', (''Ann'', ''Lee''))] @ (''P1'', (''Anna'', ''Leigh'')) # []"
    by (simp add: player_names_items_def board_twice_def ann_def)
  have e1: "(1 :: int, 0 :: int) \<notin> fst ` set ([] :: ((int \<times> int) \<times> best_key) list)"
    and e2: "''P1'' \<notin> fst ` set ([] :: (string \<times> (string \<times> string)) list)"
    by simp_all
  from lookups_last_wins [of board_twice] d e1
  have "dict_get (driver_map board_twice) (1, 0) = Some (''P1'', 8)"
    by blast
  moreover from lookups_last_wins [of board_twice] p e2
  have "dict_get (player_names board_twice) ''P1'' = Some (''Anna'', ''Leigh'')"
    by blast
  ultimately show ?thesis using d p e1 e2 by blast
qed

subsection \<open>The loop over the laps\<close>

lemma lap_step_unresolved:
  "dict_get dm (lap.carId l, driverIndex l) = None \<Longrightarrow> lap_step dm pn l best = Inr best"
  by (simp add: lap_step_def)

lemma lap_step_invalid: "\<not> isValidForBest l \<Longrightarrow> lap_step dm pn l best = Inr best"
  by (simp add: lap_step_def split: option.splits)

lemma lap_loop_append:
  "lap_loop dm pn (xs @ ys) best =
     (case lap_loop dm pn xs best of Inl e \<Rightarrow> Inl e | Inr best' \<Rightarrow> lap_loop dm pn ys best')"
  by (induction xs arbitrary: best) (auto split: sum.splits)

lemma driver_map_items_player:
  "(k, (p, cm)) \<in> set (driver_map_items lb) \<Longrightarrow> p \<in> fst ` set (player_names_items lb)"
  by (auto simp: driver_map_items_def player_names_items_def enumerate_eq_zip image_iff
           dest!: set_zip_rightD)

lemma names_cover_leaderboard: "names_cover (driver_map lb) (player_names lb)"
  unfolding names_cover_def
proof (intro allI impI)
  fix k key
  assume "dict_get (driver_map lb) k = Some key"
  then have "(k, key) \<in> set (driver_map_items lb)"
    by (auto simp: driver_map_def dict_get_dict_of_items dest: map_of_SomeD)
  then have "fst key \<in> fst ` set (player_names_items lb)"
    using driver_map_items_player [of k "fst key" "snd key" lb] by simp
  then show "dict_get (player_names lb) (fst key) \<noteq> None"
    by (simp add: player_names_def dict_get_dict_of_items map_of_eq_None_iff)
qed

lemma lap_step_total:
  assumes "names_cover dm pn"
  shows "\<exists>best'. lap_step dm pn l best = Inr best'"
proof (cases "dict_get dm (lap.carId l, driverIndex l)")
  case None
  then show ?thesis by (simp add: lap_step_def)
next
  case (Some key)
  with assms obtain nm where "dict_get pn (fst key) = Some nm"
    unfolding names_cover_def by blast
  with Some show ?thesis by (simp add: lap_step_def)
qed

lemma lap_loop_total:
  "names_cover dm pn \<Longrightarrow> \<exists>best'. lap_loop dm pn ls best = Inr best'"
proof (induction ls arbitrary: best)
  case Nil
  then show ?case by simp
next
  case (Cons l ls)
  from lap_step_total [OF Cons.prems, of l best] obtain b1 where "lap_step dm pn l best = Inr b1"
    by blast
  with Cons.IH [OF Cons.prems, of b1] show ?case by simp
qed

lemma process_session_data_total: "\<exists>best. process_session_data data = Inr best"
  by (simp add: process_session_data_def Let_def lap_loop_total names_cover_leaderboard)

subsection \<open>A stored record changes only for a strictly smaller lap time\<close>

lemma lap_step_keeps:
  assumes "lap_step dm pn l best = Inr best'" and "dict_get best key = Some b"
  shows "\<exists>b'. dict_get best' key = Some b' \<and> (b' = b \<or> lap_info.laptime b' < lap_info.laptime b)"
  using assms
  by (auto simp: lap_step_def dict_get_dict_set split: option.splits if_splits)

lemma lap_loop_keeps:
  assumes "lap_loop dm pn ls best = Inr best'" and "dict_get best key = Some b"
  shows "\<exists>b'. dict_get best' key = Some b' \<and> (b' = b \<or> lap_info.laptime b' < lap_info.laptime b)"
  using assms
proof (induction ls arbitrary: best b)
  case Nil
  then show ?case by simp
next
  case (Cons l ls)
  from Cons.prems(1) obtain b1 where
    step: "lap_step dm pn l best = Inr b1" and rest: "lap_loop dm pn ls b1 = Inr best'"
    by (auto split: sum.splits)
  from lap_step_keeps [OF step Cons.prems(2)] obtain c where
    c: "dict_get b1 key = Some c" "c = b \<or> lap_info.laptime c < lap_info.laptime b"
    by blast
  from Cons.IH [OF rest c(1)] obtain b' where
    "dict_get best' key = Some b'" "b' = c \<or> lap_info.laptime b' < lap_info.laptime c"
    by blast
  with c(2) show ?case by auto
qed

lemma lap_step_tie:
  assumes "dict_get dm (lap.carId l, driverIndex l) = Some key"
    and "dict_get best key = Some b" and "lap_info.laptime b \<le> lap.laptime l"
  shows "lap_step dm pn l best = Inr best"
  using assms by (simp add: lap_step_def)

lemma merge_item_keeps:
  assumes "dict_get agg key = Some a"
  shows "\<exists>a'. dict_get (merge_item kv agg) key = Some a' \<and>
           (a' = a \<or> lap_info.laptime a' < lap_info.laptime a)"
  using assms
  by (cases kv) (auto simp: merge_item_def dict_get_dict_set split: option.splits)

lemma merge_session_keeps:
  assumes "dict_get agg key = Some a"
  shows "\<exists>a'. dict_get (merge_session best agg) key = Some a' \<and>
           (a' = a \<or> lap_info.laptime a' < lap_info.laptime a)"
  using assms unfolding merge_session_def
proof (induction best arbitrary: agg a)
  case Nil
  then show ?case by simp
next
  case (Cons kv best)
  from merge_item_keeps [OF Cons.prems, of kv] obtain c where
    c: "dict_get (merge_item kv agg) key = Some c" "c = a \<or> lap_info.laptime c < lap_info.laptime a"
    by blast
  from Cons.IH [OF c(1)] obtain a' where
    "dict_get (fold merge_item best (merge_item kv agg)) key = Some a'"
    "a' = c \<or> lap_info.laptime a' < lap_info.laptime c"
    by blast
  with c(2) show ?case by auto
qed

lemma merge_item_tie:
  assumes "dict_get agg key = Some a" and "lap_info.laptime a \<le> lap_info.laptime info"
  shows "merge_item (key, info) agg = agg"
  using assms by (simp add: merge_item_def)

lemma member_loop_keeps:
  assumes "member_loop z sd agg = Inr agg'" and "dict_get agg key = Some a"
  shows "\<exists>a'. dict_get agg' key = Some a' \<and> (a' = a \<or> lap_info.laptime a' < lap_info.laptime a)"
  using assms
proof (induction z arbitrary: sd agg a)
  case Nil
  then show ?case by simp
next
  case (Cons m ms)
  from Cons.prems(1) obtain sd' best where
    rest: "member_loop ms sd' (merge_session best agg) = Inr agg'"
    by (auto split: sum.splits option.splits if_splits)
  from merge_session_keeps [OF Cons.prems(2), of best] obtain c where
    c: "dict_get (merge_session best agg) key = Some c"
       "c = a \<or> lap_info.laptime c < lap_info.laptime a"
    by blast
  from Cons.IH [OF rest c(1)] obtain a' where
    "dict_get agg' key = Some a'" "a' = c \<or> lap_info.laptime a' < lap_info.laptime c"
    by blast
  with c(2) show ?case by auto
qed

subsection \<open>The stored lap time is the minimum\<close>

lemma lap_step_times:
  assumes "lap_step dm pn l best = Inr best'"
  shows "stored_time best' key \<subseteq> stored_time best key \<union> lap_times dm key [l]"
    and "\<forall>t \<in> stored_time best key \<union> lap_times dm key [l]. \<exists>t' \<in> stored_time best' key. t' \<le> t"
  using assms
  by (auto simp: lap_step_def stored_time_def lap_times_def dict_get_dict_set
           split: option.splits if_splits)

lemma lap_times_Cons: "lap_times dm key (l # ls) = lap_times dm key [l] \<union> lap_times dm key ls"
  by (auto simp: lap_times_def)

lemma lap_loop_min:
  assumes "lap_loop dm pn ls best = Inr best'" and "dict_get best' key = Some b"
  shows "lap_info.laptime b \<in> stored_time best key \<union> lap_times dm key ls \<and>
         (\<forall>t \<in> stored_time best key \<union> lap_times dm key ls. lap_info.laptime b \<le> t)"
  using assms
proof (induction ls arbitrary: best)
  case Nil
  then show ?case by (simp add: stored_time_def lap_times_def)
next
  case (Cons l ls)
  from Cons.prems(1) obtain b1 where
    step: "lap_step dm pn l best = Inr b1" and rest: "lap_loop dm pn ls b1 = Inr best'"
    by (auto split: sum.splits)
  note ih = Cons.IH [OF rest Cons.prems(2)]
  note st = lap_step_times [OF step, of key]
  have mem: "lap_info.laptime b \<in> stored_time best key \<union> lap_times dm key (l # ls)"
    using ih st(1) by (auto simp: lap_times_Cons [of dm key l ls])
  have low: "lap_info.laptime b \<le> t"
    if "t \<in> stored_time best key \<union> lap_times dm key (l # ls)" for t
  proof (cases "t \<in> lap_times dm key ls")
    case True
    with ih show ?thesis by blast
  next
    case False
    with that have "t \<in> stored_time best key \<union> lap_times dm key [l]"
      by (auto simp: lap_times_Cons [of dm key l ls])
    with st(2) obtain t' where t': "t' \<in> stored_time b1 key" "t' \<le> t" by blast
    from ih t'(1) have "lap_info.laptime b \<le> t'" by blast
    with t'(2) show ?thesis by linarith
  qed
  from mem low show ?case by blast
qed

lemma lap_loop_filter_valid:
  "lap_loop dm pn (filter isValidForBest ls) best = lap_loop dm pn ls best"
  by (induction ls arbitrary: best) (auto simp: lap_step_invalid split: sum.splits)

lemma lap_step_distinct:
  "lap_step dm pn l best = Inr best' \<Longrightarrow> distinct (map fst best) \<Longrightarrow> distinct (map fst best')"
  by (auto simp: lap_step_def distinct_dict_set split: option.splits if_splits)

lemma lap_loop_distinct:
  "lap_loop dm pn ls best = Inr best' \<Longrightarrow> distinct (map fst best) \<Longrightarrow> distinct (map fst best')"
proof (induction ls arbitrary: best)
  case Nil
  then show ?case by simp
next
  case (Cons l ls)
  from Cons.prems(1) obtain b1 where
    step: "lap_step dm pn l best = Inr b1" and rest: "lap_loop dm pn ls b1 = Inr best'"
    by (auto split: sum.splits)
  from lap_step_distinct [OF step Cons.prems(2)] Cons.IH [OF rest] show ?case by blast
qed

lemma process_session_data_distinct:
  "process_session_data data = Inr best \<Longrightarrow> distinct (map fst best)"
  using lap_loop_distinct [of _ _ "laps data" "[]" best]
  by (simp add: process_session_data_def Let_def)

lemma dict_get_member:
  "distinct (map fst d) \<Longrightarrow> (k, v) \<in> set d \<Longrightarrow> dict_get d k = Some v"
  by (simp add: dict_get_def)

lemma lap_times_counting:
  "lap_times (driver_map (leaderBoardLines (sessionResult data))) key (laps data) =
     set (map lap.laptime (counting_laps data key))"
  by (auto simp: lap_times_def counting_laps_def)

text \<open>
  Claim C3. \<open>process_session_data\<close> returns a mapping for every session; the lap time of
  each of its entries is the minimum of the lap times of the session's laps that are
  valid for best and resolve to the entry's key (there is at least one); and removing
  the laps that are not valid for best from the session does not change the result.
\<close>

theorem session_best_is_min_of_valid:
  "(\<exists>best. process_session_data data = Inr best) \<and>
   (\<forall>best key b. process_session_data data = Inr best \<and> (key, b) \<in> set best \<longrightarrow>
      counting_laps data key \<noteq> [] \<and>
      lap_info.laptime b = Min (set (map lap.laptime (counting_laps data key)))) \<and>
   process_session_data (data\<lparr>laps := filter isValidForBest (laps data)\<rparr>) = process_session_data data"
proof (intro conjI allI impI)
  show "\<exists>best. process_session_data data = Inr best"
    by (rule process_session_data_total)
next
  fix best key b
  assume a: "process_session_data data = Inr best \<and> (key, b) \<in> set best"
  let ?dm = "driver_map (leaderBoardLines (sessionResult data))"
  let ?pn = "player_names (leaderBoardLines (sessionResult data))"
  let ?T = "set (map lap.laptime (counting_laps data key))"
  from a have loop: "lap_loop ?dm ?pn (laps data) [] = Inr best"
    by (simp add: process_session_data_def Let_def)
  from a have "distinct (map fst best)"
    by (blast intro: process_session_data_distinct)
  with a have "dict_get best key = Some b"
    by (blast intro: dict_get_member)
  from lap_loop_min [OF loop this]
  have m: "lap_info.laptime b \<in> ?T" "\<forall>t \<in> ?T. lap_info.laptime b \<le> t"
    by (simp_all add: stored_time_def lap_times_counting)
  from m(1) show "counting_laps data key \<noteq> []" by auto
  from m show "lap_info.laptime b = Min ?T"
    by (intro Min_eqI [symmetric]) auto
next
  show "process_session_data (data\<lparr>laps := filter isValidForBest (laps data)\<rparr>) = process_session_data data"
    by (simp add: process_session_data_def Let_def lap_loop_filter_valid)
qed

theorem session_best_is_min_of_valid_witness:
  "process_session_data session_A = Inr [(key_ann, info_90), (key_bob, info_bob)] \<and>
   (key_ann, info_90) \<in> set [(key_ann, info_90), (key_bob, info_bob)] \<and>
   counting_laps session_A key_ann = [lap_90, lap_90_again] \<and>
   lap_info.laptime info_90 = Min (set (map lap.laptime (counting_laps session_A key_ann))) \<and>
   process_session_data (session_A\<lparr>laps := filter isValidForBest (laps session_A)\<rparr>)
     = process_session_data session_A"
proof -
  have r: "process_session_data session_A = Inr [(key_ann, info_90), (key_bob, info_bob)]"
    by code_simp
  have m: "(key_ann, info_90) \<in> set [(key_ann, info_90), (key_bob, info_bob)]"
    by simp
  have c: "counting_laps session_A key_ann = [lap_90, lap_90_again]"
    by code_simp
  from session_best_is_min_of_valid [of session_A] r m
  have "lap_info.laptime info_90 = Min (set (map lap.laptime (counting_laps session_A key_ann)))"
    by blast
  moreover from session_best_is_min_of_valid [of session_A]
  have "process_session_data (session_A\<lparr>laps := filter isValidForBest (laps session_A)\<rparr>)
     = process_session_data session_A"
    by blast
  ultimately show ?thesis using r m c by blast
qed

text \<open>
  Claim C8. A lap whose (carId, driverIndex) is not in the lookup built from the
  leaderboard leaves the mapping of best laps as it is; the session with the lap, at any
  place among its laps, reduces to the same result as the session without it; and the
  reduction raises no error.
\<close>

theorem unresolved_lap_skipped:
  assumes "dict_get (driver_map (leaderBoardLines (sessionResult data))) (lap.carId l, driverIndex l) = None"
  shows "(\<forall>best. lap_step (driver_map (leaderBoardLines (sessionResult data)))
                   (player_names (leaderBoardLines (sessionResult data))) l best = Inr best) \<and>
         process_session_data (data\<lparr>laps := xs @ l # ys\<rparr>) = process_session_data (data\<lparr>laps := xs @ ys\<rparr>) \<and>
         (\<exists>best. process_session_data (data\<lparr>laps := xs @ l # ys\<rparr>) = Inr best)"
proof (intro conjI allI)
  let ?dm = "driver_map (leaderBoardLines (sessionResult data))"
  let ?pn = "player_names (leaderBoardLines (sessionResult data))"
  show step: "lap_step ?dm ?pn l best = Inr best" for best
    using assms by (rule lap_step_unresolved)
  have "lap_loop ?dm ?pn (xs @ l # ys) [] = lap_loop ?dm ?pn (xs @ ys) []"
    by (simp add: lap_loop_append step split: sum.splits)
  then show "process_session_data (data\<lparr>laps := xs @ l # ys\<rparr>) = process_session_data (data\<lparr>laps := xs @ ys\<rparr>)"
    by (simp add: process_session_data_def Let_def)
  show "\<exists>best. process_session_data (data\<lparr>laps := xs @ l # ys\<rparr>) = Inr best"
    by (rule process_session_data_total)
qed

theorem unresolved_lap_skipped_witness:
  "dict_get (driver_map (leaderBoardLines (sessionResult session_A)))
     (lap.carId lap_unknown, driverIndex lap_unknown) = None \<and>
   lap_step (driver_map (leaderBoardLines (sessionResult session_A)))
     (player_names (leaderBoardLines (sessionResult session_A))) lap_unknown [(key_ann, info_90)]
     = Inr [(key_ann, info_90)] \<and>
   process_session_data (session_A\<lparr>laps := [lap_90, lap_80_invalid, lap_90_again] @ lap_unknown # [lap_bob]\<rparr>)
     = process_session_data (session_A\<lparr>laps := [lap_90, lap_80_invalid, lap_90_again] @ [lap_bob]\<rparr>) \<and>
   process_session_data (session_A\<lparr>laps := [lap_90, lap_80_invalid, lap_90_again] @ lap_unknown # [lap_bob]\<rparr>)
     = Inr [(key_ann, info_90), (key_bob, info_bob)]"
proof -
  have h: "dict_get (driver_map (leaderBoardLines (sessionResult session_A)))
     (lap.carId lap_unknown, driverIndex lap_unknown) = None"
    by code_simp
  have r: "process_session_data (session_A\<lparr>laps := [lap_90, lap_80_invalid, lap_90_again] @ lap_unknown # [lap_bob]\<rparr>)
     = Inr [(key_ann, info_90), (key_bob, info_bob)]"
    by code_simp
  from unresolved_lap_skipped [OF h, of "[lap_90, lap_80_invalid, lap_90_again]" "[lap_bob]"] h r
  show ?thesis by blast
qed

subsection \<open>The ranking\<close>

lemma fold_pick:
  "fold (\<lambda>y m. if f y < f m then y else m) xs x \<in> set (x # xs) \<and>
   (\<forall>y \<in> set (x # xs). f (fold (\<lambda>y m. if f y < f m then y else m) xs x) \<le> (f y :: int))"
proof (induction xs arbitrary: x)
  case Nil
  then show ?case by simp
next
  case (Cons a xs)
  show ?case
    using Cons.IH [of a] Cons.IH [of x] by (cases "f a < f x") force+
qed

lemma py_min_Inr:
  assumes "py_min f xs = Inr m"
  shows "m \<in> set xs \<and> (\<forall>y \<in> set xs. f m \<le> f y)"
proof (cases xs)
  case Nil
  with assms show ?thesis by simp
next
  case (Cons x xs')
  with assms fold_pick [of f xs' x] show ?thesis by auto
qed

lemma py_min_nonempty: "xs \<noteq> [] \<Longrightarrow> \<exists>m. py_min f xs = Inr m"
  by (cases xs) auto

lemma ranked_fields:
  "ranked_entry.laptime (ranked bl kv) = item_laptime kv"
  "gap (ranked bl kv) = item_laptime kv - bl"
  by (cases kv; cases "fst kv"; simp add: ranked_def item_laptime_def)+

lemma finalize_Inr:
  assumes "finalize agg = Inr out"
  obtains m where "m \<in> set agg" and "\<forall>kv \<in> set agg. item_laptime m \<le> item_laptime kv"
    and "out = sort_key ranked_entry.laptime (map (ranked (item_laptime m)) agg)"
proof -
  from assms obtain m where m: "py_min item_laptime agg = Inr m"
    and out: "out = sort_key ranked_entry.laptime (map (ranked (lap_info.laptime (snd m))) agg)"
    by (auto simp: finalize_def Let_def split: sum.splits)
  from py_min_Inr [OF m] out that [of m] show thesis
    by (simp add: item_laptime_def)
qed

lemma finalize_props:
  assumes "finalize agg = Inr out"
  shows "out \<noteq> [] \<and> sorted (map ranked_entry.laptime out) \<and>
         (\<forall>e \<in> set out. gap e = ranked_entry.laptime e - Min (set (map ranked_entry.laptime out)) \<and> 0 \<le> gap e) \<and>
         gap (hd out) = 0"
proof -
  from assms obtain m where m: "m \<in> set agg"
    and least: "\<forall>kv \<in> set agg. item_laptime m \<le> item_laptime kv"
    and out: "out = sort_key ranked_entry.laptime (map (ranked (item_laptime m)) agg)"
    by (rule finalize_Inr)
  let ?bl = "item_laptime m"
  have set_out: "set out = ranked ?bl ` set agg"
    by (simp add: out)
  have ne: "out \<noteq> []"
    using m set_out by auto
  have srt: "sorted (map ranked_entry.laptime out)"
    by (simp add: out)
  have times: "set (map ranked_entry.laptime out) = item_laptime ` set agg"
    by (simp add: set_out image_image ranked_fields)
  have min: "Min (set (map ranked_entry.laptime out)) = ?bl"
    unfolding times using m least by (intro Min_eqI) auto
  have gaps: "gap e = ranked_entry.laptime e - ?bl \<and> 0 \<le> gap e" if "e \<in> set out" for e
    using that least by (auto simp: set_out ranked_fields)
  have "hd out \<in> set out"
    using ne by simp
  then have ge: "?bl \<le> ranked_entry.laptime (hd out)"
    using gaps [of "hd out"] by simp
  obtain e where e: "e \<in> set out" "ranked_entry.laptime e = ?bl"
    using m set_out ranked_fields(1) by (metis imageI)
  have "ranked_entry.laptime (hd out) \<le> ranked_entry.laptime e"
  proof (cases out)
    case Nil
    with ne show ?thesis by simp
  next
    case (Cons h t)
    with srt e(1) show ?thesis by auto
  qed
  with ge e(2) gaps [OF \<open>hd out \<in> set out\<close>] have g0: "gap (hd out) = 0"
    by simp
  have "\<forall>e \<in> set out. gap e = ranked_entry.laptime e - Min (set (map ranked_entry.laptime out)) \<and> 0 \<le> gap e"
    unfolding min using gaps by blast
  with ne srt g0 show ?thesis by blast
qed

lemma finalize_min:
  assumes "finalize agg = Inr out"
  shows "agg \<noteq> []"
    and "out = sort_key ranked_entry.laptime (map (ranked (Min (item_laptime ` set agg))) agg)"
    and "Min (set (map ranked_entry.laptime out)) = Min (item_laptime ` set agg)"
proof -
  from assms obtain m where m: "m \<in> set agg"
    and least: "\<forall>kv \<in> set agg. item_laptime m \<le> item_laptime kv"
    and out: "out = sort_key ranked_entry.laptime (map (ranked (item_laptime m)) agg)"
    by (rule finalize_Inr)
  from m show "agg \<noteq> []" by auto
  have min: "Min (item_laptime ` set agg) = item_laptime m"
    using m least by (intro Min_eqI) auto
  with out show "out = sort_key ranked_entry.laptime (map (ranked (Min (item_laptime ` set agg))) agg)"
    by simp
  have "set (map ranked_entry.laptime out) = item_laptime ` set agg"
    by (simp add: out image_image ranked_fields)
  then show "Min (set (map ranked_entry.laptime out)) = Min (item_laptime ` set agg)"
    by simp
qed

text \<open>
  Claim C5. When the aggregated mapping is not empty, \<open>aggregate_results\<close> returns a
  list. The list it returns has one entry for every item of the aggregated mapping,
  with the gap of the entry being its lap time minus the smallest lap time of the
  mapping, in the order of a stable sort by lap time. So it is not empty and
  non-decreasing in lap time, no gap is negative, and the first entry has the smallest
  lap time of the mapping and the gap 0.
\<close>

theorem ranking_sorted_with_gaps:
  "(\<forall>agg. member_loop z None [] = Inr agg \<and> agg \<noteq> [] \<longrightarrow> (\<exists>out. aggregate_results z = Inr out)) \<and>
   (\<forall>agg out. member_loop z None [] = Inr agg \<and> aggregate_results z = Inr out \<longrightarrow>
      agg \<noteq> [] \<and>
      out = sort_key ranked_entry.laptime (map (ranked (Min (item_laptime ` set agg))) agg) \<and>
      out \<noteq> [] \<and> sorted (map ranked_entry.laptime out) \<and>
      (\<forall>e \<in> set out. gap e = ranked_entry.laptime e - Min (item_laptime ` set agg) \<and> 0 \<le> gap e) \<and>
      Min (set (map ranked_entry.laptime out)) = Min (item_laptime ` set agg) \<and>
      ranked_entry.laptime (hd out) = Min (item_laptime ` set agg) \<and>
      gap (hd out) = 0)"
proof (intro conjI allI impI)
  fix agg
  assume "member_loop z None [] = Inr agg \<and> agg \<noteq> []"
  moreover from this obtain m where "py_min item_laptime agg = Inr m"
    using py_min_nonempty by blast
  ultimately show "\<exists>out. aggregate_results z = Inr out"
    by (simp add: aggregate_results_def finalize_def Let_def)
next
  fix agg out
  assume a: "member_loop z None [] = Inr agg \<and> aggregate_results z = Inr out"
  then have fin: "finalize agg = Inr out"
    by (auto simp: aggregate_results_def)
  note m = finalize_min [OF fin]
  from finalize_props [OF fin] have p: "out \<noteq> []" "sorted (map ranked_entry.laptime out)"
    "\<forall>e \<in> set out. gap e = ranked_entry.laptime e - Min (set (map ranked_entry.laptime out)) \<and> 0 \<le> gap e"
    "gap (hd out) = 0"
    by blast+
  show "agg \<noteq> []" by (rule m(1))
  show "out = sort_key ranked_entry.laptime (map (ranked (Min (item_laptime ` set agg))) agg)"
    by (rule m(2))
  show "out \<noteq> []" by (rule p(1))
  show "sorted (map ranked_entry.laptime out)" by (rule p(2))
  show g: "\<forall>e \<in> set out. gap e = ranked_entry.laptime e - Min (item_laptime ` set agg) \<and> 0 \<le> gap e"
    using p(3) unfolding m(3) .
  show "Min (set (map ranked_entry.laptime out)) = Min (item_laptime ` set agg)"
    by (rule m(3))
  show "gap (hd out) = 0" by (rule p(4))
  from p(1) have "hd out \<in> set out" by simp
  with g p(4) show "ranked_entry.laptime (hd out) = Min (item_laptime ` set agg)"
    by force
qed

theorem ranking_sorted_with_gaps_witness:
  "member_loop [member_A, member_B] None [] = Inr [(key_ann, info_85), (key_bob, info_bob)] \<and>
   [(key_ann, info_85), (key_bob, info_bob)] \<noteq> [] \<and>
   aggregate_results [member_A, member_B]
     = Inr [ranked_ann 85000 [28000, 28000, 29000] 0, ranked_bob 5000] \<and>
   Min (item_laptime ` set [(key_ann, info_85), (key_bob, info_bob)]) = 85000 \<and>
   [ranked_ann 85000 [28000, 28000, 29000] 0, ranked_bob 5000]
     = sort_key ranked_entry.laptime
         (map (ranked (Min (item_laptime ` set [(key_ann, info_85), (key_bob, info_bob)])))
            [(key_ann, info_85), (key_bob, info_bob)]) \<and>
   sorted (map ranked_entry.laptime [ranked_ann 85000 [28000, 28000, 29000] 0, ranked_bob 5000]) \<and>
   gap (ranked_bob 5000) = ranked_entry.laptime (ranked_bob 5000)
     - Min (item_laptime ` set [(key_ann, info_85), (key_bob, info_bob)]) \<and>
   ranked_entry.laptime (hd [ranked_ann 85000 [28000, 28000, 29000] 0, ranked_bob 5000])
     = Min (item_laptime ` set [(key_ann, info_85), (key_bob, info_bob)]) \<and>
   gap (hd [ranked_ann 85000 [28000, 28000, 29000] 0, ranked_bob 5000]) = 0"
proof -
  let ?agg = "[(key_ann, info_85), (key_bob, info_bob)]"
  let ?out = "[ranked_ann 85000 [28000, 28000, 29000] 0, ranked_bob 5000]"
  have l: "member_loop [member_A, member_B] None [] = Inr ?agg"
    by code_simp
  have ne: "?agg \<noteq> []"
    by simp
  have r: "aggregate_results [member_A, member_B] = Inr ?out"
    by code_simp
  have mn: "Min (item_laptime ` set ?agg) = 85000"
    by (simp add: item_laptime_def info_85_def info_bob_def)
  from ranking_sorted_with_gaps [of "[member_A, member_B]"] l r
  have p: "?out = sort_key ranked_entry.laptime (map (ranked (Min (item_laptime ` set ?agg))) ?agg)"
    "sorted (map ranked_entry.laptime ?out)"
    "\<forall>e \<in> set ?out. gap e = ranked_entry.laptime e - Min (item_laptime ` set ?agg) \<and> 0 \<le> gap e"
    "ranked_entry.laptime (hd ?out) = Min (item_laptime ` set ?agg)"
    "gap (hd ?out) = 0"
    by blast+
  from p(3) have "gap (ranked_bob 5000) = ranked_entry.laptime (ranked_bob 5000)
     - Min (item_laptime ` set ?agg)"
    by simp
  with l ne r mn p(1,2,4,5) show ?thesis by blast
qed

subsection \<open>An empty result\<close>

text \<open>
  Claim C2, as the code has it. When the loop over the members ends with an empty
  mapping, \<open>aggregate_results\<close> fails with the \<open>ValueError\<close> that \<open>min\<close> raises on an
  empty sequence (the code has no test of its own for the empty mapping), the script
  ends with that error, and the output file is never opened.
\<close>

theorem empty_result_is_fatal:
  assumes "member_loop z None [] = Inr []"
  shows "aggregate_results z = Inl ValueError \<and>
         main car_models z = \<lparr>raised = Some ValueError, output_file = None\<rparr>"
  using assms by (simp add: aggregate_results_def finalize_def main_def)

theorem empty_result_is_fatal_witness:
  "member_loop [member_none] None [] = Inr [] \<and>
   aggregate_results [member_none] = Inl ValueError \<and>
   main Map.empty [member_none] = \<lparr>raised = Some ValueError, output_file = None\<rparr>"
proof -
  have h: "member_loop [member_none] None [] = Inr []"
    by code_simp
  from empty_result_is_fatal [OF h, of Map.empty] h show ?thesis
    by blast
qed

text \<open>
  The claim as the specification states it asks for a test of the empty mapping before
  the minimum is taken. On the empty archive the loop ends with the empty mapping, and
  the error of the run is the one \<open>min\<close> gives on the empty sequence.
\<close>

theorem empty_archive_fails_inside_min:
  "member_loop [] None [] = Inr [] \<and>
   finalize [] = Inl ValueError \<and>
   py_min item_laptime [] = Inl ValueError \<and>
   aggregate_results [] = Inl ValueError"
  by (simp add: aggregate_results_def finalize_def)

subsection \<open>Formatting times\<close>

lemma digit_cases:
  "d < (10 :: nat) \<Longrightarrow>
   d = 0 \<or> d = 1 \<or> d = 2 \<or> d = 3 \<or> d = 4 \<or> d = 5 \<or> d = 6 \<or> d = 7 \<or> d = 8 \<or> d = 9"
  by arith

lemma digit_val_digit_char: "d < 10 \<Longrightarrow> digit_val (digit_char d) = d"
  using digit_cases [of d] by (auto simp: digit_val_def digit_char_def)

lemma is_digit_digit_char: "d < 10 \<Longrightarrow> is_digit (digit_char d)"
  using digit_cases [of d] by (auto simp: is_digit_def digit_char_def)

lemma is_digit_zero: "is_digit (CHR ''0'')"
  by (simp add: is_digit_def)

lemma nat_of_digits_snoc: "nat_of_digits (s @ [c]) = 10 * nat_of_digits s + digit_val c"
  by (simp add: nat_of_digits_def)

lemma digits_str_nat: "list_all is_digit (str_nat n)"
proof (induction n rule: str_nat.induct)
  case (1 n)
  show ?case
  proof (cases "n < 10")
    case True
    then show ?thesis by (simp add: str_nat.simps [of n] is_digit_digit_char)
  next
    case False
    with "1" show ?thesis by (simp add: str_nat.simps [of n] is_digit_digit_char)
  qed
qed

lemma nat_of_digits_str_nat: "nat_of_digits (str_nat n) = n"
proof (induction n rule: str_nat.induct)
  case (1 n)
  show ?case
  proof (cases "n < 10")
    case True
    then show ?thesis
      using nat_of_digits_snoc [of "[]" "digit_char n"]
      by (simp add: str_nat.simps [of n] digit_val_digit_char nat_of_digits_def)
  next
    case False
    with "1" show ?thesis
      by (simp add: str_nat.simps [of n] nat_of_digits_snoc digit_val_digit_char)
  qed
qed

lemma length_str_nat_pos: "0 < length (str_nat n)"
  by (subst str_nat.simps) simp

lemma length_str_nat_small: "n < 10 \<Longrightarrow> length (str_nat n) = 1"
  by (subst str_nat.simps) simp

lemma length_str_nat_two: "10 \<le> n \<Longrightarrow> n < 100 \<Longrightarrow> length (str_nat n) = 2"
  by (subst str_nat.simps) (simp add: length_str_nat_small)

lemma length_str_nat_three: "100 \<le> n \<Longrightarrow> n < 1000 \<Longrightarrow> length (str_nat n) = 3"
  by (subst str_nat.simps) (simp add: length_str_nat_two)

lemma length_str_nat_big: "100 \<le> n \<Longrightarrow> 3 \<le> length (str_nat n)"
proof (induction n rule: str_nat.induct)
  case (1 n)
  show ?case
  proof (cases "n < 1000")
    case True
    with "1.prems" show ?thesis by (simp add: length_str_nat_three)
  next
    case False
    with "1.IH" have "3 \<le> length (str_nat (n div 10))" by simp
    with False show ?thesis by (subst str_nat.simps) simp
  qed
qed

lemma length_zfill: "length (zfill w s) = max w (length s)"
  by (simp add: zfill_def)

lemma digits_zfill: "list_all is_digit s \<Longrightarrow> list_all is_digit (zfill w s)"
  by (auto simp: zfill_def list_all_iff is_digit_zero)

lemma nat_of_digits_zeros: "foldl (\<lambda>n c. 10 * n + digit_val c) 0 (replicate k (CHR ''0'')) = 0"
  by (induction k) (simp_all add: digit_val_def)

lemma nat_of_digits_zfill: "nat_of_digits (zfill w s) = nat_of_digits s"
  by (simp add: nat_of_digits_def zfill_def nat_of_digits_zeros)

lemma format_zero_nonneg:
  assumes "0 \<le> n"
  shows "format_zero w n = zfill w (str_nat (nat n))"
    and "list_all is_digit (format_zero w n)"
    and "int (nat_of_digits (format_zero w n)) = n"
    and "length (format_zero w n) = max w (length (str_nat (nat n)))"
  using assms
  by (simp_all add: format_zero_def digits_zfill digits_str_nat nat_of_digits_zfill
        nat_of_digits_str_nat length_zfill)

lemma length_format_two:
  assumes "0 \<le> n"
  shows "2 \<le> length (format_zero 2 n)" and "length (format_zero 2 n) = 2 \<longleftrightarrow> n < 100"
proof -
  show "2 \<le> length (format_zero 2 n)"
    using assms by (simp add: format_zero_nonneg(4))
  show "length (format_zero 2 n) = 2 \<longleftrightarrow> n < 100"
  proof (cases "n < 100")
    case True
    then have "length (str_nat (nat n)) \<le> 2"
      using assms length_str_nat_small [of "nat n"] length_str_nat_two [of "nat n"]
      by (cases "nat n < 10") auto
    with True assms show ?thesis by (simp add: format_zero_nonneg(4))
  next
    case False
    then have "3 \<le> length (str_nat (nat n))"
      using length_str_nat_big [of "nat n"] by simp
    with False assms show ?thesis by (simp add: format_zero_nonneg(4))
  qed
qed

lemma length_format_fixed:
  assumes "0 \<le> n" and "n < 10 ^ w" and "w = 2 \<or> w = 3"
  shows "length (format_zero w n) = w"
proof -
  have "length (str_nat (nat n)) \<le> w"
    using assms length_str_nat_small [of "nat n"] length_str_nat_two [of "nat n"]
      length_str_nat_three [of "nat n"]
    by (cases "nat n < 10"; cases "nat n < 100") auto
  with assms(1) show ?thesis by (simp add: format_zero_nonneg(4))
qed

lemma length_str_nat_le3: "n < 1000 \<Longrightarrow> length (str_nat n) \<le> 3"
  using length_str_nat_small [of n] length_str_nat_two [of n] length_str_nat_three [of n]
  by (cases "n < 10"; cases "n < 100") auto

lemma quotient_below:
  "ms = 60000 * q + r \<Longrightarrow> 0 \<le> r \<Longrightarrow> r < 60000 \<Longrightarrow> (q < 100) = (ms < (6000000 :: int))"
  by auto

lemma minutes_below_hundred: "((ms :: int) div 60000 < 100) = (ms < 6000000)"
proof -
  have "ms = 60000 * (ms div 60000) + ms mod 60000"
    by simp
  moreover have "0 \<le> ms mod 60000" "ms mod 60000 < 60000"
    by simp_all
  ultimately show ?thesis by (rule quotient_below)
qed

lemma seconds_and_millis:
  assumes "0 \<le> g"
  shows "1000 * int (nat g div 1000) + int (nat g mod 1000) = g"
proof -
  have d: "int (nat g div 1000) = g div 1000"
    using assms by (simp add: zdiv_int)
  have m: "int (nat g mod 1000) = g mod 1000"
    using assms by (simp add: zmod_int)
  show ?thesis unfolding d m by simp
qed

lemma ms_to_time_format_parts:
  assumes "0 \<le> ms"
  shows "\<exists>mm ss mmm. ms_to_time_format ms = mm @ '':'' @ ss @ ''.'' @ mmm \<and>
           list_all is_digit (mm @ ss @ mmm) \<and>
           2 \<le> length mm \<and> (length mm = 2 \<longleftrightarrow> ms < 6000000) \<and>
           length ss = 2 \<and> length mmm = 3 \<and>
           int (nat_of_digits mm) = ms div 60000 \<and>
           int (nat_of_digits ss) = ms mod 60000 div 1000 \<and>
           int (nat_of_digits mmm) = ms mod 1000"
proof -
  let ?m = "ms div 60000" and ?s = "ms mod 60000 div 1000" and ?r = "ms mod 1000"
  have m0: "0 \<le> ?m" and s0: "0 \<le> ?s" and r0: "0 \<le> ?r"
    using assms by (simp_all add: pos_imp_zdiv_nonneg_iff)
  have s_lt: "?s < 10 ^ 2" and r_lt: "?r < 10 ^ 3"
    by simp_all
  have small: "?m < 100 \<longleftrightarrow> ms < 6000000"
    by (rule minutes_below_hundred)
  have "ms_to_time_format ms =
      format_zero 2 ?m @ '':'' @ format_zero 2 ?s @ ''.'' @ format_zero 3 ?r"
    by (simp add: ms_to_time_format_def Let_def)
  moreover have "list_all is_digit (format_zero 2 ?m @ format_zero 2 ?s @ format_zero 3 ?r)"
    using m0 s0 r0 by (simp add: format_zero_nonneg(2))
  moreover have "2 \<le> length (format_zero 2 ?m)"
    using m0 by (rule length_format_two(1))
  moreover have "length (format_zero 2 ?m) = 2 \<longleftrightarrow> ms < 6000000"
    using length_format_two(2) [OF m0] small by simp
  moreover have "length (format_zero 2 ?s) = 2"
    using s0 s_lt by (rule length_format_fixed) simp
  moreover have "length (format_zero 3 ?r) = 3"
    using r0 r_lt by (rule length_format_fixed) simp
  moreover have "int (nat_of_digits (format_zero 2 ?m)) = ?m"
    using m0 by (rule format_zero_nonneg(3))
  moreover have "int (nat_of_digits (format_zero 2 ?s)) = ?s"
    using s0 by (rule format_zero_nonneg(3))
  moreover have "int (nat_of_digits (format_zero 3 ?r)) = ?r"
    using r0 by (rule format_zero_nonneg(3))
  ultimately show ?thesis by blast
qed

subsection \<open>Members that are no session files\<close>

lemma merge_item_covers:
  "\<exists>a. dict_get (merge_item (k, info) agg) k = Some a \<and> lap_info.laptime a \<le> lap_info.laptime info"
  by (cases "dict_get agg k") (auto simp: merge_item_def dict_get_dict_set)

lemma merge_session_covers:
  assumes "(k, info) \<in> set best"
  shows "\<exists>a. dict_get (merge_session best agg) k = Some a \<and>
           lap_info.laptime a \<le> lap_info.laptime info"
  using assms unfolding merge_session_def
proof (induction best arbitrary: agg)
  case Nil
  then show ?case by simp
next
  case (Cons kv best)
  show ?case
  proof (cases "kv = (k, info)")
    case True
    from merge_item_covers [of k info agg] obtain a where
      a: "dict_get (merge_item (k, info) agg) k = Some a" "lap_info.laptime a \<le> lap_info.laptime info"
      by blast
    from merge_session_keeps [OF a(1), of best] obtain a' where
      "dict_get (merge_session best (merge_item (k, info) agg)) k = Some a'"
      "a' = a \<or> lap_info.laptime a' < lap_info.laptime a"
      by blast
    with a(2) True show ?thesis
      by (auto simp: merge_session_def)
  next
    case False
    with Cons.prems have "(k, info) \<in> set best" by simp
    from Cons.IH [OF this, of "merge_item kv agg"] show ?thesis by simp
  qed
qed

lemma fold_merge_item_same:
  "(\<And>kv. kv \<in> set best \<Longrightarrow> merge_item kv agg = agg) \<Longrightarrow> fold merge_item best agg = agg"
  by (induction best) simp_all

text \<open>Merging the same session result a second time changes nothing.\<close>

lemma merge_session_again:
  "merge_session best (merge_session best agg) = merge_session best agg"
proof -
  have "merge_item kv (merge_session best agg) = merge_session best agg"
    if "kv \<in> set best" for kv
  proof -
    obtain k info where kv: "kv = (k, info)" by (cases kv)
    from merge_session_covers [of k info best agg] that kv obtain a where
      "dict_get (merge_session best agg) k = Some a" "lap_info.laptime a \<le> lap_info.laptime info"
      by blast
    then show ?thesis unfolding kv by (rule merge_item_tie)
  qed
  then have "fold merge_item best (merge_session best agg) = merge_session best agg"
    by (rule fold_merge_item_same)
  then show ?thesis by (simp add: merge_session_def)
qed

text \<open>
  Once a session file has been loaded, a member that is no session file merges the
  result of the last loaded session once more, which changes nothing.
\<close>

lemma member_loop_skip:
  assumes "process_session_data data = Inr best" and "merge_session best agg = agg"
  shows "member_loop ms (Some data) agg = member_loop (filter is_json ms) (Some data) agg"
  using assms
proof (induction ms arbitrary: data best agg)
  case Nil
  then show ?case by simp
next
  case (Cons m ms)
  show ?case
  proof (cases "is_json m")
    case False
    with Cons.prems Cons.IH [OF Cons.prems] show ?thesis
      by (simp add: is_json_def)
  next
    case True
    show ?thesis
    proof (cases "content m")
      case None
      with True show ?thesis by (simp add: is_json_def json_load_def)
    next
      case (Some data')
      obtain best' where b: "process_session_data data' = Inr best'"
        using process_session_data_total by blast
      have "merge_session best' (merge_session best' agg) = merge_session best' agg"
        by (rule merge_session_again)
      from Cons.IH [OF b this] True Some b show ?thesis
        by (simp add: is_json_def json_load_def)
    qed
  qed
qed

lemma non_json_after_json_ignored:
  assumes "is_json m"
  shows "aggregate_results (m # ms) = aggregate_results (m # filter is_json ms)"
proof (cases "content m")
  case None
  with assms show ?thesis
    by (simp add: aggregate_results_def is_json_def json_load_def)
next
  case (Some data)
  obtain best where b: "process_session_data data = Inr best"
    using process_session_data_total by blast
  have "merge_session best (merge_session best []) = merge_session best []"
    by (rule merge_session_again)
  from member_loop_skip [OF b this, of ms] assms Some b show ?thesis
    by (simp add: aggregate_results_def is_json_def json_load_def)
qed

subsection \<open>An archive of one session\<close>

lemma dict_get_None_iff: "dict_get d k = None \<longleftrightarrow> k \<notin> fst ` set d"
  by (simp add: dict_get_def map_of_eq_None_iff)

lemma dict_set_new: "k \<notin> fst ` set d \<Longrightarrow> dict_set d k v = d @ [(k, v)]"
  by (induction d) auto

lemma fold_merge_item_fresh:
  "distinct (map fst (agg @ best)) \<Longrightarrow> fold merge_item best agg = agg @ best"
proof (induction best arbitrary: agg)
  case Nil
  then show ?case by simp
next
  case (Cons kv best)
  obtain k info where kv: "kv = (k, info)" by (cases kv)
  from Cons.prems have fresh: "k \<notin> fst ` set agg"
    by (auto simp: kv)
  then have step: "merge_item kv agg = agg @ [kv]"
    using dict_get_None_iff [of agg k] by (simp add: merge_item_def kv dict_set_new)
  from Cons.prems have "distinct (map fst ((agg @ [kv]) @ best))"
    by simp
  from Cons.IH [OF this] step show ?case by simp
qed

lemma merge_session_first: "distinct (map fst best) \<Longrightarrow> merge_session best [] = best"
  using fold_merge_item_fresh [of "[]" best] by (simp add: merge_session_def)

text \<open>
  With the one session file listed first, the aggregated mapping is the mapping of that
  session, entry by entry and in the same order.
\<close>

lemma single_session_listed_first:
  assumes "is_json m" and "content m = Some data" and "filter is_json ms = []"
    and "process_session_data data = Inr best"
  shows "member_loop (m # ms) None [] = Inr best"
    and "aggregate_results (m # ms) = finalize best"
proof -
  have d: "merge_session best [] = best"
    using assms(4) by (intro merge_session_first process_session_data_distinct)
  have "merge_session best (merge_session best []) = merge_session best []"
    by (rule merge_session_again)
  from member_loop_skip [OF assms(4) this, of ms] assms d
  show "member_loop (m # ms) None [] = Inr best"
    by (simp add: is_json_def json_load_def)
  then show "aggregate_results (m # ms) = finalize best"
    by (simp add: aggregate_results_def)
qed

subsection \<open>The archive that starts with a member that is no session file\<close>

text \<open>
  Claim C10. If the first listed member of the archive does not end in \<open>.json\<close>, the
  loop reads \<open>session_data\<close> before any assignment to it and \<open>aggregate_results\<close> ends
  in \<open>UnboundLocalError\<close>, whatever the other members are: the member is not skipped.
\<close>

theorem first_member_not_json_unbound:
  assumes "\<not> endswith (filename m) ''.json''"
  shows "aggregate_results (m # ms) = Inl UnboundLocalError"
  using assms by (simp add: aggregate_results_def)

theorem first_member_not_json_unbound_witness:
  "\<not> endswith (filename member_notes) ''.json'' \<and>
   aggregate_results [member_notes, member_A] = Inl UnboundLocalError"
proof -
  have h: "\<not> endswith (filename member_notes) ''.json''"
    by (simp add: member_notes_def endswith_def)
  from h first_member_not_json_unbound [OF h, of "[member_A]"] show ?thesis
    by simp
qed

text \<open>
  Claim C1 says that members whose names do not end in \<open>.json\<close> have no effect on the
  output. The code does not behave so when such a member is listed before the first
  session file: the archive of \<open>notes.txt\<close> and \<open>a.json\<close> ends in \<open>UnboundLocalError\<close>,
  while the same archive without \<open>notes.txt\<close> gives the ranking of session A. (After a
  session file such members change nothing: \<open>non_json_after_json_ignored\<close>.)
\<close>

theorem non_json_member_not_ignored:
  "aggregate_results [member_notes, member_A] = Inl UnboundLocalError \<and>
   filter is_json [member_notes, member_A] = [member_A] \<and>
   aggregate_results [member_A] = Inr [ranked_ann 90000 [30000, 30000, 30000] 0, ranked_bob 0]"
  by code_simp

text \<open>
  Claim C4 says that an archive with exactly one session file gives what the reduction
  of that session gives. The code does not behave so when another member is listed
  before the session file: session B reduces to one best lap, and the archive of
  \<open>notes.txt\<close> and \<open>b.json\<close> ends in \<open>UnboundLocalError\<close>. (With the session file listed
  first the aggregated mapping is that of the session: \<open>single_session_listed_first\<close>.)
\<close>

theorem single_session_archive_fails:
  "filter is_json [member_notes, member_B] = [member_B] \<and>
   content member_B = Some session_B \<and>
   process_session_data session_B = Inr [(key_ann, info_85)] \<and>
   aggregate_results [member_notes, member_B] = Inl UnboundLocalError \<and>
   aggregate_results [member_B] = Inr [ranked_ann 85000 [28000, 28000, 29000] 0]"
  by code_simp

subsection \<open>First seen, first kept\<close>

lemma lap_step_key:
  assumes "lap_step dm pn l best = Inr best'" and "dict_get pn (fst key) = Some nm"
  shows "dict_get best' key =
           (if counts_for dm key l then keep_faster nm l (dict_get best key) else dict_get best key)"
  using assms
  by (auto simp: lap_step_def counts_for_def keep_faster_def dict_get_dict_set
           split: option.splits if_splits)

lemma lap_loop_key:
  assumes "lap_loop dm pn ls best = Inr best'" and "dict_get pn (fst key) = Some nm"
  shows "dict_get best' key = fold (keep_faster nm) (filter (counts_for dm key) ls) (dict_get best key)"
  using assms
proof (induction ls arbitrary: best)
  case Nil
  then show ?case by simp
next
  case (Cons l ls)
  from Cons.prems(1) obtain b1 where
    step: "lap_step dm pn l best = Inr b1" and rest: "lap_loop dm pn ls b1 = Inr best'"
    by (auto split: sum.splits)
  from Cons.IH [OF rest Cons.prems(2)] lap_step_key [OF step Cons.prems(2)]
  show ?case by simp
qed

lemma fold_keep_faster:
  "fold (keep_faster nm) ls
     (Some \<lparr>lap_info.laptime = lap.laptime m, lap_info.splits = lap.splits m, name = nm\<rparr>) =
   Some \<lparr>lap_info.laptime = lap.laptime (fold (\<lambda>y m. if lap.laptime y < lap.laptime m then y else m) ls m),
         lap_info.splits = lap.splits (fold (\<lambda>y m. if lap.laptime y < lap.laptime m then y else m) ls m),
         name = nm\<rparr>"
  by (induction ls arbitrary: m) (simp_all add: keep_faster_def)

text \<open>\<open>min\<close> gives the first of the smallest.\<close>

lemma fold_pick_first:
  "\<exists>pre post. x # xs = pre @ fold (\<lambda>y m. if f y < f m then y else m) xs x # post \<and>
     (\<forall>y \<in> set pre. f (fold (\<lambda>y m. if f y < f m then y else m) xs x) < (f y :: int)) \<and>
     (\<forall>y \<in> set post. f (fold (\<lambda>y m. if f y < f m then y else m) xs x) \<le> f y)"
proof (induction xs arbitrary: x rule: rev_induct)
  case Nil
  show ?case by (rule exI [of _ "[]"], rule exI [of _ "[]"]) simp
next
  case (snoc a xs)
  let ?m = "fold (\<lambda>y m. if f y < f m then y else m) xs x"
  from snoc [of x] obtain pre post where
    s: "x # xs = pre @ ?m # post" "\<forall>y \<in> set pre. f ?m < f y" "\<forall>y \<in> set post. f ?m \<le> f y"
    by blast
  show ?case
  proof (cases "f a < f ?m")
    case True
    have "x # xs @ [a] = (x # xs) @ a # []" by simp
    moreover from True s have "\<forall>y \<in> set (x # xs). f a < f y"
      by (simp only: s(1)) force
    ultimately show ?thesis
      using True by (intro exI [of _ "x # xs"] exI [of _ "[]"]) simp
  next
    case False
    have "x # xs @ [a] = pre @ ?m # (post @ [a])"
      using s(1) by simp
    with False s(2,3) show ?thesis
      by (intro exI [of _ pre] exI [of _ "post @ [a]"]) auto
  qed
qed

lemma py_min_first:
  assumes "py_min f xs = Inr m"
  shows "\<exists>pre post. xs = pre @ m # post \<and> (\<forall>y \<in> set pre. f m < f y) \<and> (\<forall>y \<in> set post. f m \<le> f y)"
proof (cases xs)
  case Nil
  with assms show ?thesis by simp
next
  case (Cons x xs')
  with assms have "m = fold (\<lambda>y m. if f y < f m then y else m) xs' x"
    by simp
  with fold_pick_first [of x xs' f] Cons show ?thesis by simp
qed

lemma session_first_of_fastest:
  assumes "process_session_data data = Inr best" and "(key, b) \<in> set best"
  shows "\<exists>l. py_min lap.laptime (counting_laps data key) = Inr l \<and>
           lap_info.laptime b = lap.laptime l \<and> lap_info.splits b = lap.splits l"
proof -
  let ?dm = "driver_map (leaderBoardLines (sessionResult data))"
  let ?pn = "player_names (leaderBoardLines (sessionResult data))"
  from assms(1) have loop: "lap_loop ?dm ?pn (laps data) [] = Inr best"
    by (simp add: process_session_data_def Let_def)
  from assms have get: "dict_get best key = Some b"
    by (blast intro: dict_get_member process_session_data_distinct)
  have cl: "filter (counts_for ?dm key) (laps data) = counting_laps data key"
    by (simp add: counting_laps_def counts_for_def [abs_def])
  show ?thesis
  proof (cases "dict_get ?pn (fst key)")
    case None
    have "lap_times ?dm key (laps data) = {}"
    proof (rule ccontr)
      assume "lap_times ?dm key (laps data) \<noteq> {}"
      then obtain l :: lap where "dict_get ?dm (lap.carId l, driverIndex l) = Some key"
        by (auto simp: lap_times_def)
      with names_cover_leaderboard [of "leaderBoardLines (sessionResult data)"] None
      show False unfolding names_cover_def by blast
    qed
    with lap_loop_min [OF loop get] show ?thesis
      by (simp add: stored_time_def)
  next
    case (Some nm)
    from lap_loop_key [OF loop Some] get cl
    have f: "fold (keep_faster nm) (counting_laps data key) None = Some b"
      by simp
    show ?thesis
    proof (cases "counting_laps data key")
      case Nil
      with f show ?thesis by simp
    next
      case (Cons l ls)
      with f have "fold (keep_faster nm) ls
          (Some \<lparr>lap_info.laptime = lap.laptime l, lap_info.splits = lap.splits l, name = nm\<rparr>) = Some b"
        by (simp add: keep_faster_def)
      then show ?thesis
        unfolding fold_keep_faster Cons by auto
    qed
  qed
qed

text \<open>
  Claim C7. In the loop over the laps of a session and in the loop over the members of
  the archive, the record stored for a key stays as it is or is replaced by one with a
  strictly smaller lap time. A lap, or a session record, whose lap time is not below the
  stored one leaves the mapping unchanged, so in a tie the record seen first stays. For a
  whole session: the record of a key has the lap time and the splits of the first of the
  fastest laps that count for the key, every counting lap before it being strictly
  slower and every one after it not faster.
\<close>

theorem overwrite_only_when_strictly_faster:
  "(\<forall>best' key b. lap_loop dm pn ls best = Inr best' \<and> dict_get best key = Some b \<longrightarrow>
      (\<exists>b'. dict_get best' key = Some b' \<and> (b' = b \<or> lap_info.laptime b' < lap_info.laptime b))) \<and>
   (\<forall>agg' key a. member_loop z sd agg = Inr agg' \<and> dict_get agg key = Some a \<longrightarrow>
      (\<exists>a'. dict_get agg' key = Some a' \<and> (a' = a \<or> lap_info.laptime a' < lap_info.laptime a))) \<and>
   (\<forall>key b. dict_get dm (lap.carId l, driverIndex l) = Some key \<and> dict_get best key = Some b \<and>
      lap_info.laptime b \<le> lap.laptime l \<longrightarrow> lap_step dm pn l best = Inr best) \<and>
   (\<forall>key a info. dict_get agg key = Some a \<and> lap_info.laptime a \<le> lap_info.laptime info \<longrightarrow>
      merge_item (key, info) agg = agg) \<and>
   (\<forall>best key b. process_session_data data = Inr best \<and> (key, b) \<in> set best \<longrightarrow>
      (\<exists>pre l post. counting_laps data key = pre @ l # post \<and>
         (\<forall>y \<in> set pre. lap.laptime l < lap.laptime y) \<and>
         (\<forall>y \<in> set post. lap.laptime l \<le> lap.laptime y) \<and>
         lap_info.laptime b = lap.laptime l \<and> lap_info.splits b = lap.splits l))"
proof (intro conjI)
  show "\<forall>best' key b. lap_loop dm pn ls best = Inr best' \<and> dict_get best key = Some b \<longrightarrow>
      (\<exists>b'. dict_get best' key = Some b' \<and> (b' = b \<or> lap_info.laptime b' < lap_info.laptime b))"
    using lap_loop_keeps [of dm pn ls best] by blast
  show "\<forall>agg' key a. member_loop z sd agg = Inr agg' \<and> dict_get agg key = Some a \<longrightarrow>
      (\<exists>a'. dict_get agg' key = Some a' \<and> (a' = a \<or> lap_info.laptime a' < lap_info.laptime a))"
    using member_loop_keeps [of z sd agg] by blast
  show "\<forall>key b. dict_get dm (lap.carId l, driverIndex l) = Some key \<and> dict_get best key = Some b \<and>
      lap_info.laptime b \<le> lap.laptime l \<longrightarrow> lap_step dm pn l best = Inr best"
    using lap_step_tie [of dm l _ best _ pn] by blast
  show "\<forall>key a info. dict_get agg key = Some a \<and> lap_info.laptime a \<le> lap_info.laptime info \<longrightarrow>
      merge_item (key, info) agg = agg"
    using merge_item_tie [of agg] by blast
  show "\<forall>best key b. process_session_data data = Inr best \<and> (key, b) \<in> set best \<longrightarrow>
      (\<exists>pre l post. counting_laps data key = pre @ l # post \<and>
         (\<forall>y \<in> set pre. lap.laptime l < lap.laptime y) \<and>
         (\<forall>y \<in> set post. lap.laptime l \<le> lap.laptime y) \<and>
         lap_info.laptime b = lap.laptime l \<and> lap_info.splits b = lap.splits l)"
  proof (intro allI impI)
    fix best key b
    assume a: "process_session_data data = Inr best \<and> (key, b) \<in> set best"
    then obtain l where l: "py_min lap.laptime (counting_laps data key) = Inr l"
      "lap_info.laptime b = lap.laptime l" "lap_info.splits b = lap.splits l"
      using session_first_of_fastest [of data best key b] by blast
    from py_min_first [OF l(1)] l(2,3)
    show "\<exists>pre l post. counting_laps data key = pre @ l # post \<and>
         (\<forall>y \<in> set pre. lap.laptime l < lap.laptime y) \<and>
         (\<forall>y \<in> set post. lap.laptime l \<le> lap.laptime y) \<and>
         lap_info.laptime b = lap.laptime l \<and> lap_info.splits b = lap.splits l"
      by blast
  qed
qed

theorem overwrite_only_when_strictly_faster_witness:
  "lap_loop (driver_map board) (player_names board) [lap_90_again, lap_85] [(key_ann, info_90)]
     = Inr [(key_ann, info_85)] \<and>
   dict_get [(key_ann, info_90)] key_ann = Some info_90 \<and>
   dict_get [(key_ann, info_85)] key_ann = Some info_85 \<and>
   lap_info.laptime info_85 < lap_info.laptime info_90 \<and>
   member_loop [member_A, member_B] None [(key_ann, info_90)]
     = Inr [(key_ann, info_85), (key_bob, info_bob)] \<and>
   dict_get [(key_ann, info_85), (key_bob, info_bob)] key_ann = Some info_85 \<and>
   dict_get (driver_map board) (lap.carId lap_90_again, driverIndex lap_90_again) = Some key_ann \<and>
   lap_info.laptime info_90 \<le> lap.laptime lap_90_again \<and>
   lap_step (driver_map board) (player_names board) lap_90_again [(key_ann, info_90)]
     = Inr [(key_ann, info_90)] \<and>
   lap_info.laptime info_90 \<le> lap_info.laptime info_bob \<and>
   merge_item (key_ann, info_bob) [(key_ann, info_90)] = [(key_ann, info_90)] \<and>
   process_session_data session_A = Inr [(key_ann, info_90), (key_bob, info_bob)] \<and>
   (key_ann, info_90) \<in> set [(key_ann, info_90), (key_bob, info_bob)] \<and>
   counting_laps session_A key_ann = [] @ lap_90 # [lap_90_again] \<and>
   lap.laptime lap_90 \<le> lap.laptime lap_90_again \<and>
   lap_info.splits info_90 = lap.splits lap_90"
proof -
  let ?dm = "driver_map board" and ?pn = "player_names board"
  let ?best = "[(key_ann, info_90)]"
  note inst = overwrite_only_when_strictly_faster
    [of ?dm ?pn "[lap_90_again, lap_85]" ?best "[member_A, member_B]" None ?best lap_90_again
      session_A]
  have loop: "lap_loop ?dm ?pn [lap_90_again, lap_85] ?best = Inr [(key_ann, info_85)]"
    by code_simp
  have g0: "dict_get ?best key_ann = Some info_90"
    by (simp add: dict_get_def key_ann_def key_bob_def)
  have mem: "member_loop [member_A, member_B] None ?best
     = Inr [(key_ann, info_85), (key_bob, info_bob)]"
    by code_simp
  have res: "dict_get ?dm (lap.carId lap_90_again, driverIndex lap_90_again) = Some key_ann"
    by code_simp
  have le1: "lap_info.laptime info_90 \<le> lap.laptime lap_90_again"
    by (simp add: info_90_def lap_90_again_def)
  have le2: "lap_info.laptime info_90 \<le> lap_info.laptime info_bob"
    by (simp add: info_90_def info_bob_def)
  have lt: "lap_info.laptime info_85 < lap_info.laptime info_90"
    by (simp add: info_90_def info_85_def)
  from inst loop g0 obtain b' where
    "dict_get [(key_ann, info_85)] key_ann = Some b'"
    by blast
  then have g1: "dict_get [(key_ann, info_85)] key_ann = Some info_85"
    by (simp add: dict_get_def key_ann_def key_bob_def)
  from inst mem g0 obtain a' where
    "dict_get [(key_ann, info_85), (key_bob, info_bob)] key_ann = Some a'"
    by blast
  then have g2: "dict_get [(key_ann, info_85), (key_bob, info_bob)] key_ann = Some info_85"
    by (simp add: dict_get_def key_ann_def key_bob_def)
  from inst res g0 le1 have step: "lap_step ?dm ?pn lap_90_again ?best = Inr ?best"
    by blast
  from inst g0 le2 have mi: "merge_item (key_ann, info_bob) ?best = ?best"
    by blast
  have psd: "process_session_data session_A = Inr [(key_ann, info_90), (key_bob, info_bob)]"
    by code_simp
  have el: "(key_ann, info_90) \<in> set [(key_ann, info_90), (key_bob, info_bob)]"
    by simp
  have cl: "counting_laps session_A key_ann = [] @ lap_90 # [lap_90_again]"
    by code_simp
  have le3: "lap.laptime lap_90 \<le> lap.laptime lap_90_again"
    by (simp add: lap_90_def lap_90_again_def)
  have sp: "lap_info.splits info_90 = lap.splits lap_90"
    by (simp add: info_90_def lap_90_def)
  from inst psd el obtain pre l post where
    "counting_laps session_A key_ann = pre @ l # post"
    by blast
  from loop g0 g1 lt mem g2 res le1 step le2 mi psd el cl le3 sp show ?thesis
    by blast
qed

subsection \<open>The gap as a float\<close>

lemma bit_length_le: "x < 2 ^ n \<Longrightarrow> bit_length x \<le> n"
proof (induction n arbitrary: x)
  case 0
  then show ?case by (simp add: bit_length.simps)
next
  case (Suc n)
  show ?case
  proof (cases "x = 0")
    case True
    then show ?thesis by (simp add: bit_length.simps)
  next
    case False
    from Suc.prems have "x div 2 < 2 ^ n" by simp
    from Suc.IH [OF this] False show ?thesis
      by (subst bit_length.simps) simp
  qed
qed

lemma bit_length_pos: "0 < x \<Longrightarrow> 0 < bit_length x"
  by (subst bit_length.simps) simp

text \<open>Rounding a fraction that is nearer than one half to an integer gives that integer.\<close>

lemma round_half_even_above:
  assumes "2 * r < d"
  shows "round_half_even (x * d + r) d = x"
proof -
  from assms have "r < d" by simp
  then have "(x * d + r) div d = x" and "(x * d + r) mod d = r"
    by simp_all
  with assms show ?thesis
    by (simp add: round_half_even_def Let_def)
qed

lemma round_half_even_below:
  assumes "0 < r" and "2 * r < d"
  shows "round_half_even (Suc x * d - r) d = Suc x"
proof -
  from assms have eq: "Suc x * d - r = x * d + (d - r)" and lt: "d - r < d"
    by simp_all
  from lt have "(x * d + (d - r)) div d = x" and "(x * d + (d - r)) mod d = d - r"
    by simp_all
  moreover from assms have "d < 2 * (d - r)"
    by simp
  ultimately show ?thesis
    unfolding eq by (simp add: round_half_even_def Let_def)
qed

lemma next_multiple: "r < d \<Longrightarrow> a = q * d + r \<Longrightarrow> (q + 1) * d = a + (d - r)"
  for a d q r :: nat
  by (simp add: algebra_simps)

text \<open>The rounded quotient, times the denominator, is within half the denominator.\<close>

lemma round_half_even_near:
  assumes "0 < d"
  obtains r where "2 * r \<le> d"
    and "round_half_even a d * d = a + r \<or> round_half_even a d * d + r = a"
proof -
  let ?q = "a div d" and ?r = "a mod d"
  have a: "a = ?q * d + ?r" by simp
  have rd: "?r < d" using assms by simp
  consider "2 * ?r < d" | "d < 2 * ?r" | "2 * ?r = d" by linarith
  then show thesis
  proof cases
    case 1
    then have "round_half_even a d = ?q"
      by (simp add: round_half_even_def Let_def)
    with 1 a that [of ?r] show thesis by simp
  next
    case 2
    then have "round_half_even a d = ?q + 1"
      by (simp add: round_half_even_def Let_def)
    moreover from 2 rd have "2 * (d - ?r) \<le> d" by simp
    moreover have "(?q + 1) * d = a + (d - ?r)"
      using rd a by (rule next_multiple)
    ultimately show thesis using that [of "d - ?r"] by simp
  next
    case 3
    show thesis
    proof (cases "even ?q")
      case True
      with 3 have "round_half_even a d = ?q"
        by (simp add: round_half_even_def Let_def)
      with 3 a that [of ?r] show thesis by simp
    next
      case False
      with 3 have "round_half_even a d = ?q + 1"
        by (simp add: round_half_even_def Let_def)
      moreover from 3 have "2 * (d - ?r) \<le> d" by simp
      moreover have "(?q + 1) * d = a + (d - ?r)"
        using rd a by (rule next_multiple)
      ultimately show thesis using that [of "d - ?r"] by simp
    qed
  qed
qed

text \<open>
  A number of thousandths, scaled by a power of two of at least \<open>2 ^ 10\<close>, rounded to
  a mantissa and rounded back to thousandths, is the number itself.
\<close>

lemma thousandths_back:
  assumes "10 \<le> k"
  shows "round_half_even (round_half_even (x * 2 ^ k) 1000 * 1000) (2 ^ k) = x"
proof -
  let ?m = "round_half_even (x * 2 ^ k) 1000"
  have "(2 :: nat) ^ 10 \<le> 2 ^ k"
    using assms by (intro power_increasing) simp_all
  then have big: "(1024 :: nat) \<le> 2 ^ k"
    by simp
  obtain r where r: "2 * r \<le> 1000"
    and m: "?m * 1000 = x * 2 ^ k + r \<or> ?m * 1000 + r = x * 2 ^ k"
    by (rule round_half_even_near [of 1000 "x * 2 ^ k"]) simp_all
  from r big have small: "2 * r < 2 ^ k"
    by linarith
  from m show ?thesis
  proof
    assume "?m * 1000 = x * 2 ^ k + r"
    with small show ?thesis
      by (simp add: round_half_even_above)
  next
    assume below: "?m * 1000 + r = x * 2 ^ k"
    show ?thesis
    proof (cases "r = 0")
      case True
      with below have "?m * 1000 = x * 2 ^ k + 0" by simp
      then show ?thesis
        using round_half_even_above [of 0 "2 ^ k" x] by simp
    next
      case False
      with below have "x \<noteq> 0"
        by (cases "x = 0") simp_all
      then obtain x' where x: "x = Suc x'"
        by (cases x) simp_all
      from below have "?m * 1000 = Suc x' * 2 ^ k - r"
        unfolding x by simp
      with small False show ?thesis
        unfolding x using round_half_even_below [of r "2 ^ k" x'] by simp
    qed
  qed
qed

lemma bit_length_1000: "bit_length 1000 = 10"
  by (simp add: bit_length.simps)

text \<open>
  Below \<open>2 ^ 43\<close> seconds the quotient \<open>g / 1000\<close> has a binary exponent of at most 42,
  so the mantissa is \<open>g / 1000\<close> scaled by at least \<open>2 ^ 10\<close>.
\<close>

lemma binary_exponent_thousand:
  assumes "0 < x" and "x < 8796093022208000"
  shows "- 10 \<le> binary_exponent x 1000" and "binary_exponent x 1000 \<le> 42"
proof -
  define t0 where "t0 = int (bit_length x) - 10"
  have t: "binary_exponent x 1000 =
      (if snd (scaled x 1000 t0) \<le> fst (scaled x 1000 t0) then t0 else t0 - 1)"
    by (simp add: binary_exponent_def bit_length_1000 t0_def)
  have "x < 2 ^ 53"
    using assms(2) by simp
  then have "bit_length x \<le> 53"
    by (rule bit_length_le)
  then have up: "t0 \<le> 43"
    by (simp add: t0_def)
  have "0 < bit_length x"
    using assms(1) by (rule bit_length_pos)
  then have lo: "- 9 \<le> t0"
    by (simp add: t0_def)
  show "- 10 \<le> binary_exponent x 1000"
    using lo by (simp add: t)
  show "binary_exponent x 1000 \<le> 42"
  proof (cases "t0 = 43")
    case True
    then have "scaled x 1000 t0 = (x, 1000 * 2 ^ 43)"
      by (simp add: scaled_def)
    with assms(2) True show ?thesis by (simp add: t)
  next
    case False
    with up show ?thesis by (simp add: t)
  qed
qed

lemma truediv_thousand:
  assumes "0 < g" and "g < 8796093022208000"
  shows "\<exists>k. 10 \<le> k \<and>
           truediv g 1000 = Inr (Double False (round_half_even (nat g * 2 ^ k) 1000) (- int k))"
proof -
  let ?x = "nat g"
  from assms have x0: "0 < ?x" and xlt: "?x < 8796093022208000"
    by simp_all
  note t = binary_exponent_thousand [OF x0 xlt]
  define k where "k = nat (52 - binary_exponent ?x 1000)"
  have k: "10 \<le> k" and e: "binary_exponent ?x 1000 - 52 = - int k"
    using t by (simp_all add: k_def)
  have emax: "max (binary_exponent ?x 1000 - 52) (- 1074) = - int k"
    using t(1) e by simp
  have neg: "\<not> 0 \<le> - int k" and small: "\<not> 971 < - int k" "- int k \<noteq> 971"
    using k by simp_all
  have sc: "scaled ?x 1000 (- int k) = (?x * 2 ^ k, 1000)"
    using neg by (simp add: scaled_def)
  have "round_to_double False ?x 1000 =
      Inr (Double False (round_half_even (?x * 2 ^ k) 1000) (- int k))"
    unfolding round_to_double_def emax Let_def sc using small by simp
  with assms(1) k show ?thesis
    by (auto simp: truediv_def)
qed

lemma format_3f_thousand:
  assumes "10 \<le> k"
  shows "format_3f (Double False (round_half_even (x * 2 ^ k) 1000) (- int k)) =
           str_nat (x div 1000) @ ''.'' @ zfill 3 (str_nat (x mod 1000))"
proof -
  have "\<not> 0 \<le> - int k"
    using assms by simp
  then show ?thesis
    by (simp add: format_3f_def Let_def thousandths_back [OF assms])
qed

text \<open>
  Below \<open>2 ^ 43\<close> seconds the float of the gap, formatted with three decimals, shows the
  gap exactly: the whole seconds, a point, the milliseconds.
\<close>

lemma format_gap_exact:
  assumes "0 \<le> g" and "g < 8796093022208000"
  shows "format_gap g = Inr (str_nat (nat g div 1000) @ ''.'' @ zfill 3 (str_nat (nat g mod 1000)))"
proof (cases "g = 0")
  case True
  then show ?thesis
    by (simp add: format_gap_def truediv_def format_3f_def)
next
  case False
  with assms(1) have "0 < g" by simp
  from truediv_thousand [OF this assms(2)] obtain k where "10 \<le> k"
    and "truediv g 1000 = Inr (Double False (round_half_even (nat g * 2 ^ k) 1000) (- int k))"
    by blast
  then show ?thesis
    by (simp add: format_gap_def format_3f_thousand)
qed

text \<open>Whatever the gap, a formatted float has three digits after the point.\<close>

lemma format_3f_shape:
  "\<exists>i f. format_3f d = (if negative d then ''-'' else []) @ i @ ''.'' @ f \<and>
     i \<noteq> [] \<and> list_all is_digit (i @ f) \<and> length f = 3"
proof -
  define n where "n = (if 0 \<le> exponent d then mantissa d * 1000 * 2 ^ nat (exponent d)
               else round_half_even (mantissa d * 1000) (2 ^ nat (- exponent d)))"
  let ?i = "str_nat (n div 1000)" and ?f = "zfill 3 (str_nat (n mod 1000))"
  have "format_3f d = (if negative d then ''-'' else []) @ ?i @ ''.'' @ ?f"
    by (simp add: format_3f_def n_def Let_def)
  moreover have "?i \<noteq> []"
    using length_str_nat_pos [of "n div 1000"] by auto
  moreover have "list_all is_digit (?i @ ?f)"
    by (simp add: digits_str_nat digits_zfill)
  moreover have "length ?f = 3"
    using length_str_nat_le3 [of "n mod 1000"] by (simp add: length_zfill)
  ultimately show ?thesis by blast
qed

lemma format_gap_shape:
  assumes "format_gap g = Inr s"
  shows "\<exists>i f. s = (if g < 0 then ''-'' else []) @ i @ ''.'' @ f \<and>
     i \<noteq> [] \<and> list_all is_digit (i @ f) \<and> length f = 3"
proof -
  from assms obtain d where d: "truediv g 1000 = Inr d" and s: "s = format_3f d"
    by (auto simp: format_gap_def split: sum.splits)
  from d have "negative d = (g < 0)"
    by (auto simp: truediv_def round_to_double_def Let_def split: if_splits)
  with format_3f_shape [of d] s show ?thesis by simp
qed

lemma zfill_step: "zfill w s = (if length s < w then zfill w (CHR ''0'' # s) else s)"
  by (auto simp: zfill_def Suc_diff_Suc replicate_app_Cons_same simp flip: replicate_Suc)

lemmas show_digits = str_nat.simps zfill_step digit_char_def

text \<open>
  From \<open>2 ^ 43\<close> seconds on the float is no longer exact to the millisecond, and the
  quotient of a gap beyond the largest double raises.
\<close>

lemma format_gap_inexact: "format_gap 8796093022208001 = Inr ''8796093022208.002''"
proof -
  have b: "bit_length 8796093022208001 = 53"
    by (simp add: bit_length.simps)
  have t: "binary_exponent 8796093022208001 1000 = 43"
    by (simp add: binary_exponent_def b bit_length_1000 scaled_def)
  have "truediv 8796093022208001 1000 = Inr (Double False 4503599627370497 (- 9))"
    by (simp add: truediv_def round_to_double_def t scaled_def round_half_even_def Let_def)
  moreover have "format_3f (Double False 4503599627370497 (- 9)) = ''8796093022208.002''"
    by (simp add: format_3f_def round_half_even_def Let_def show_digits)
  ultimately show ?thesis
    by (simp add: format_gap_def)
qed

lemma format_gap_1500: "format_gap 1500 = Inr ''1.500''"
proof -
  have "format_gap 1500 = Inr (str_nat (nat 1500 div 1000) @ ''.'' @ zfill 3 (str_nat (nat 1500 mod 1000)))"
    by (rule format_gap_exact) simp_all
  then show ?thesis
    by (simp add: show_digits)
qed

lemma bit_length_gt: "2 ^ n \<le> x \<Longrightarrow> n < bit_length x"
proof (induction n arbitrary: x)
  case 0
  then show ?case by (subst bit_length.simps) simp
next
  case (Suc n)
  then have half: "2 ^ n \<le> x div 2"
    by simp
  from Suc.prems have "x \<noteq> 0"
    by (cases "x = 0") simp_all
  with Suc.IH [OF half] show ?case
    by (subst bit_length.simps) simp
qed

lemma format_gap_overflow:
  assumes "2 ^ 1035 \<le> g"
  shows "format_gap g = Inl OverflowError"
proof -
  let ?x = "nat g"
  have g0: "0 < g"
    using assms by (rule less_le_trans [rotated]) simp
  have "(2 :: nat) ^ 1035 \<le> ?x"
    using assms g0 by (simp add: le_nat_iff)
  then have "1035 < bit_length ?x"
    by (rule bit_length_gt)
  then have "1025 \<le> binary_exponent ?x 1000"
    by (simp add: binary_exponent_def bit_length_1000 Let_def)
  define e where "e = max (binary_exponent ?x 1000 - 52) (- 1074)"
  have "1025 \<le> binary_exponent ?x 1000 \<Longrightarrow> 971 < e"
    by (simp add: e_def)
  then have "971 < e"
    using \<open>1025 \<le> binary_exponent ?x 1000\<close> by simp
  then have "round_to_double False ?x 1000 = Inl OverflowError"
    unfolding round_to_double_def e_def [symmetric] Let_def by simp
  with g0 show ?thesis
    by (simp add: format_gap_def truediv_def)
qed

lemma format_gap_reads_back:
  assumes "0 \<le> g" and "g < 8796093022208000"
  shows "\<exists>s f. format_gap g = Inr (s @ ''.'' @ f) \<and> list_all is_digit (s @ f) \<and> length f = 3 \<and>
           1000 * int (nat_of_digits s) + int (nat_of_digits f) = g"
proof -
  let ?s = "str_nat (nat g div 1000)" and ?f = "zfill 3 (str_nat (nat g mod 1000))"
  have "format_gap g = Inr (?s @ ''.'' @ ?f)"
    using assms by (rule format_gap_exact)
  moreover have "list_all is_digit (?s @ ?f)"
    by (simp add: digits_str_nat digits_zfill)
  moreover have "length ?f = 3"
    using length_str_nat_le3 [of "nat g mod 1000"] by (simp add: length_zfill)
  moreover have "1000 * int (nat_of_digits ?s) + int (nat_of_digits ?f) = g"
    using seconds_and_millis [OF assms(1)]
    by (simp add: nat_of_digits_str_nat nat_of_digits_zfill)
  ultimately show ?thesis by blast
qed

subsection \<open>The rows of the report\<close>

lemma export_row_fields:
  assumes "cm (car_model e) = Some c" and "ranked_entry.splits e = s1 # s2 # s3 # rest"
    and "format_gap (gap e) = Inr gs"
  shows "export_row cm e =
           Inr [fst (ranked_entry.name e) @ '' '' @ snd (ranked_entry.name e), c,
                ms_to_time_format (ranked_entry.laptime e),
                ms_to_time_format s1, ms_to_time_format s2, ms_to_time_format s3, gs]"
  using assms by (simp add: export_row_def py_index_def)

lemma export_rows_all:
  "list_all2 (\<lambda>e row. export_row cm e = Inr row) data rows \<Longrightarrow> export_rows cm data = Inr rows"
  by (induction data rows rule: list_all2_induct) simp_all

lemma export_hotlaps_file:
  assumes "list_all2 (\<lambda>e row. export_row cm e = Inr row) data rows"
  shows "export_hotlaps cm data = \<lparr>raised = None, output_file = Some (fieldnames # rows)\<rparr>"
  using export_rows_all [OF assms] by (simp add: export_hotlaps_def)

text \<open>
  Claim C6. For a millisecond value that is not negative, \<open>ms_to_time_format\<close> gives
  the minutes, a colon, the seconds, a point and the milliseconds, all in decimal
  digits: the seconds in two digits, the milliseconds in three, the minutes in at least
  two and in exactly two only below 100 minutes; read back, the three numbers are the
  value divided by 60000, the rest in whole seconds, and the rest in milliseconds.
  61234 ms gives 01:01.234 and 0 ms gives 00:00.000. The gap is the float
  \<open>gap / 1000\<close> formatted with three decimals: whenever the division does not raise,
  the text has exactly three digits after the point; for a gap from 0 to below \<open>2 ^ 43\<close>
  seconds it reads back as the gap to the millisecond; a gap of 1500 ms gives 1.500.
  \<open>export_row\<close> puts the name, the car, the formatted lap time and splits and that
  gap text into the row, and \<open>export_hotlaps\<close> writes the header and the rows.
\<close>

theorem ms_to_time_format_shape:
  assumes "0 \<le> ms"
  shows "(\<exists>mm ss mmm. ms_to_time_format ms = mm @ '':'' @ ss @ ''.'' @ mmm \<and>
           list_all is_digit (mm @ ss @ mmm) \<and>
           2 \<le> length mm \<and> (length mm = 2 \<longleftrightarrow> ms < 6000000) \<and>
           length ss = 2 \<and> length mmm = 3 \<and>
           int (nat_of_digits mm) = ms div 60000 \<and>
           int (nat_of_digits ss) = ms mod 60000 div 1000 \<and>
           int (nat_of_digits mmm) = ms mod 1000) \<and>
         ms_to_time_format 61234 = ''01:01.234'' \<and>
         ms_to_time_format 0 = ''00:00.000'' \<and>
         format_gap 1500 = Inr ''1.500'' \<and>
         (\<forall>g. 0 \<le> g \<and> g < 8796093022208000 \<longrightarrow>
            (\<exists>s f. format_gap g = Inr (s @ ''.'' @ f) \<and> list_all is_digit (s @ f) \<and>
               length f = 3 \<and> 1000 * int (nat_of_digits s) + int (nat_of_digits f) = g)) \<and>
         (\<forall>g s. format_gap g = Inr s \<longrightarrow>
            (\<exists>i f. s = (if g < 0 then ''-'' else []) @ i @ ''.'' @ f \<and>
               i \<noteq> [] \<and> list_all is_digit (i @ f) \<and> length f = 3)) \<and>
         (\<forall>cm e c s1 s2 s3 rest gs.
            cm (car_model e) = Some c \<and> ranked_entry.splits e = s1 # s2 # s3 # rest \<and>
            format_gap (gap e) = Inr gs \<longrightarrow>
            export_row cm e =
              Inr [fst (ranked_entry.name e) @ '' '' @ snd (ranked_entry.name e), c,
                   ms_to_time_format (ranked_entry.laptime e),
                   ms_to_time_format s1, ms_to_time_format s2, ms_to_time_format s3, gs]) \<and>
         (\<forall>cm data rows. list_all2 (\<lambda>e row. export_row cm e = Inr row) data rows \<longrightarrow>
            export_hotlaps cm data = \<lparr>raised = None, output_file = Some (fieldnames # rows)\<rparr>)"
proof (intro conjI)
  show "\<exists>mm ss mmm. ms_to_time_format ms = mm @ '':'' @ ss @ ''.'' @ mmm \<and>
           list_all is_digit (mm @ ss @ mmm) \<and>
           2 \<le> length mm \<and> (length mm = 2 \<longleftrightarrow> ms < 6000000) \<and>
           length ss = 2 \<and> length mmm = 3 \<and>
           int (nat_of_digits mm) = ms div 60000 \<and>
           int (nat_of_digits ss) = ms mod 60000 div 1000 \<and>
           int (nat_of_digits mmm) = ms mod 1000"
    using assms by (rule ms_to_time_format_parts)
  show "ms_to_time_format 61234 = ''01:01.234''"
    by code_simp
  show "ms_to_time_format 0 = ''00:00.000''"
    by code_simp
  show "format_gap 1500 = Inr ''1.500''"
    by (rule format_gap_1500)
  show "\<forall>g. 0 \<le> g \<and> g < 8796093022208000 \<longrightarrow>
            (\<exists>s f. format_gap g = Inr (s @ ''.'' @ f) \<and> list_all is_digit (s @ f) \<and>
               length f = 3 \<and> 1000 * int (nat_of_digits s) + int (nat_of_digits f) = g)"
    using format_gap_reads_back by blast
  show "\<forall>g s. format_gap g = Inr s \<longrightarrow>
            (\<exists>i f. s = (if g < 0 then ''-'' else []) @ i @ ''.'' @ f \<and>
               i \<noteq> [] \<and> list_all is_digit (i @ f) \<and> length f = 3)"
    using format_gap_shape by blast
  show "\<forall>cm e c s1 s2 s3 rest gs.
            cm (car_model e) = Some c \<and> ranked_entry.splits e = s1 # s2 # s3 # rest \<and>
            format_gap (gap e) = Inr gs \<longrightarrow>
            export_row cm e =
              Inr [fst (ranked_entry.name e) @ '' '' @ snd (ranked_entry.name e), c,
                   ms_to_time_format (ranked_entry.laptime e),
                   ms_to_time_format s1, ms_to_time_format s2, ms_to_time_format s3, gs]"
    using export_row_fields by blast
  show "\<forall>cm data rows. list_all2 (\<lambda>e row. export_row cm e = Inr row) data rows \<longrightarrow>
            export_hotlaps cm data = \<lparr>raised = None, output_file = Some (fieldnames # rows)\<rparr>"
    using export_hotlaps_file by blast
qed

theorem ms_to_time_format_shape_witness:
  "(0 :: int) \<le> 6012345 \<and>
   ms_to_time_format 6012345 = ''100:12.345'' \<and>
   ms_to_time_format 61234 = ''01:01.234'' \<and>
   ms_to_time_format 0 = ''00:00.000'' \<and>
   format_gap 1500 = Inr ''1.500'' \<and>
   (0 :: int) \<le> 2750 \<and> (2750 :: int) < 8796093022208000 \<and>
   format_gap 2750 = Inr ''2.750'' \<and>
   sample_cars (car_model (ranked_bob 1500)) = Some ''Car Seven'' \<and>
   ranked_entry.splits (ranked_bob 1500) = 31000 # 29000 # 30000 # [] \<and>
   format_gap (gap (ranked_bob 1500)) = Inr ''1.500'' \<and>
   export_row sample_cars (ranked_bob 1500) =
     Inr [''Bob Ray'', ''Car Seven'', ''01:30.000'', ''00:31.000'', ''00:29.000'', ''00:30.000'',
          ''1.500''] \<and>
   list_all2 (\<lambda>e row. export_row sample_cars e = Inr row) [ranked_bob 1500]
     [[''Bob Ray'', ''Car Seven'', ''01:30.000'', ''00:31.000'', ''00:29.000'', ''00:30.000'',
       ''1.500'']] \<and>
   export_hotlaps sample_cars [ranked_bob 1500] =
     \<lparr>raised = None,
      output_file = Some [fieldnames,
        [''Bob Ray'', ''Car Seven'', ''01:30.000'', ''00:31.000'', ''00:29.000'', ''00:30.000'',
         ''1.500'']]\<rparr>"
proof -
  let ?row = "[''Bob Ray'', ''Car Seven'', ''01:30.000'', ''00:31.000'', ''00:29.000'',
               ''00:30.000'', ''1.500'']"
  have h1: "(0 :: int) \<le> 6012345"
    by simp
  note inst = ms_to_time_format_shape [OF h1]
  have e1: "ms_to_time_format 6012345 = ''100:12.345''"
    by code_simp
  from inst have e2: "ms_to_time_format 61234 = ''01:01.234''"
    and e3: "ms_to_time_format 0 = ''00:00.000''"
    and g1: "format_gap 1500 = Inr ''1.500''"
    by blast+
  have r1: "(0 :: int) \<le> 2750" and r2: "(2750 :: int) < 8796093022208000"
    by simp_all
  have "format_gap 2750 = Inr (str_nat (nat 2750 div 1000) @ ''.'' @ zfill 3 (str_nat (nat 2750 mod 1000)))"
    using r1 r2 by (rule format_gap_exact)
  then have g2: "format_gap 2750 = Inr ''2.750''"
    by (simp add: show_digits)
  have c: "sample_cars (car_model (ranked_bob 1500)) = Some ''Car Seven''"
    by (simp add: sample_cars_def ranked_bob_def)
  have sp: "ranked_entry.splits (ranked_bob 1500) = 31000 # 29000 # 30000 # []"
    by (simp add: ranked_bob_def)
  have gp: "format_gap (gap (ranked_bob 1500)) = Inr ''1.500''"
    using g1 by (simp add: ranked_bob_def)
  have t1: "ms_to_time_format 90000 = ''01:30.000''"
    and t2: "ms_to_time_format 31000 = ''00:31.000''"
    and t3: "ms_to_time_format 29000 = ''00:29.000''"
    and t4: "ms_to_time_format 30000 = ''00:30.000''"
    by code_simp+
  from inst c sp gp have "export_row sample_cars (ranked_bob 1500) =
      Inr [fst (ranked_entry.name (ranked_bob 1500)) @ '' '' @ snd (ranked_entry.name (ranked_bob 1500)),
           ''Car Seven'', ms_to_time_format (ranked_entry.laptime (ranked_bob 1500)),
           ms_to_time_format 31000, ms_to_time_format 29000, ms_to_time_format 30000, ''1.500'']"
    by blast
  then have row: "export_row sample_cars (ranked_bob 1500) = Inr ?row"
    by (simp add: ranked_bob_def t1 t2 t3 t4)
  then have all: "list_all2 (\<lambda>e row. export_row sample_cars e = Inr row) [ranked_bob 1500] [?row]"
    by simp
  with inst have written: "export_hotlaps sample_cars [ranked_bob 1500] =
      \<lparr>raised = None, output_file = Some [fieldnames, ?row]\<rparr>"
    by blast
  from h1 e1 e2 e3 g1 r1 r2 g2 c sp gp row all written show ?thesis
    by blast
qed

end
